theory Spec2Isabelle
  imports Complex_Main "HOL-Library.Word" "HOL-Library.Signed_Division"
begin

unbundle bit_operations_syntax

section \<open>The keypoint decoder of the keypoint sink (sink.js)\<close>

text \<open>
  The pixel buffer is a \<open>Uint8Array\<close>: a list of bytes. Reading a typed array beyond
  its end gives \<open>undefined\<close> in JavaScript; \<open>elem\<close> returns \<open>None\<close> there.
\<close>

type_synonym byte = "8 word"

definition elem :: "byte list \<Rightarrow> nat \<Rightarrow> byte option" where
  "elem pixels k = (if k < length pixels then Some (pixels ! k) else None)"

text \<open>
  The bitwise operators \<open><<\<close> and \<open>|\<close> convert their operands with ToInt32, which
  maps \<open>undefined\<close> to 0, and compute on 32-bit integers.
\<close>

definition toInt32 :: "byte option \<Rightarrow> 32 word" where
  "toInt32 v = (case v of None \<Rightarrow> 0 | Some b \<Rightarrow> ucast b)"

text \<open>\<open>(pixels[hi] << 8) | pixels[lo]\<close>, read back as a JavaScript number.\<close>

definition u16le :: "byte list \<Rightarrow> nat \<Rightarrow> nat \<Rightarrow> int" where
  "u16le pixels hi lo = sint (push_bit 8 (toInt32 (elem pixels hi)) OR toInt32 (elem pixels lo))"

text \<open>
  \<open>pixels.subarray(begin, end)\<close>: both ends are clamped to the length of the array,
  and the result is empty when they cross.
\<close>

definition subarray :: "byte list \<Rightarrow> nat \<Rightarrow> nat \<Rightarrow> byte list" where
  "subarray pixels b e = drop b (take e pixels)"

text \<open>
  The constants \<open>FIX_RESOLUTION\<close>, \<open>LOG2_PYRAMID_MAX_SCALE\<close> and
  \<open>PYRAMID_MAX_LEVELS\<close> are imported from utils/globals.js, which is missing from the
  sources: they are parameters of the model.
\<close>

record globals =
  FIX_RESOLUTION :: real
  LOG2_PYRAMID_MAX_SCALE :: real
  PYRAMID_MAX_LEVELS :: real

text \<open>
  Modelled from the spec: the constant \<open>MIN_KEYPOINT_SIZE\<close> of utils/globals.js, which
  is missing from the sources. The keypoint wire format gives it as 8 bytes (two pixels).
\<close>

definition MIN_KEYPOINT_SIZE :: nat where
  "MIN_KEYPOINT_SIZE = 8"

text \<open>\<open>Math.PI\<close> is the double nearest to the circle constant; this is its exact value.\<close>

definition Math_PI :: real where
  "Math_PI = 884279719003555 / 281474976710656"

text \<open>
  The arguments of the \<open>SpeedyKeypoint\<close> constructor, in its order. Coordinates, level
  of detail and rotation are JavaScript numbers, modelled by exact reals; the rotation is
  \<open>None\<close> when the program computes NaN (arithmetic on \<open>undefined\<close>).
\<close>

datatype keypoint = SpeedyKeypoint
  (kp_x: real) (kp_y: real) (kp_lod: real) (kp_rotation: "real option")
  (kp_score: int) (kp_descriptor: "byte list") (kp_extra: "byte list")

text \<open>\<open>Math.ceil((MIN_KEYPOINT_SIZE + descriptorSize + extraSize) / 4)\<close> on naturals.\<close>

definition pixelsPerKeypoint :: "nat \<Rightarrow> nat \<Rightarrow> nat" where
  "pixelsPerKeypoint descriptorSize extraSize =
     (MIN_KEYPOINT_SIZE + descriptorSize + extraSize + 3) div 4"

definition bytesPerKeypoint :: "nat \<Rightarrow> nat \<Rightarrow> nat" where
  "bytesPerKeypoint descriptorSize extraSize = 4 * pixelsPerKeypoint descriptorSize extraSize"

text \<open>What one iteration of the \<open>for\<close> loop does with the cell at byte offset \<open>i\<close>.\<close>

datatype iteration = Break | Continue | Push keypoint

definition cell :: "globals \<Rightarrow> byte list \<Rightarrow> nat \<Rightarrow> nat \<Rightarrow> nat \<Rightarrow> iteration" where
  "cell g pixels descriptorSize extraSize i =
    (let m = LOG2_PYRAMID_MAX_SCALE g; h = PYRAMID_MAX_LEVELS g;
         piOver255 = Math_PI / 255;
         xraw = u16le pixels (i + 1) i;
         yraw = u16le pixels (i + 3) (i + 2)
     in if xraw \<ge> 0xFFFF \<and> yraw \<ge> 0xFFFF then Break
        else if xraw + yraw = 0 \<and> elem pixels (i + 6) = Some 0 then Continue
        else
          let xf = real_of_int xraw / FIX_RESOLUTION g;
              yf = real_of_int yraw / FIX_RESOLUTION g;
              lod = (case elem pixels (i + 4) of
                       Some b \<Rightarrow> if b < 255 then - m + ((m + h) * real (unat b)) / 255 else 0
                     | None \<Rightarrow> 0);
              rotation = (case elem pixels (i + 5) of
                       Some b \<Rightarrow> Some ((2 * real (unat b) - 255) * piOver255)
                     | None \<Rightarrow> None);
              score = u16le pixels (i + 7) (i + 6);
              extraBytes = subarray pixels (8 + i) (8 + i + extraSize);
              descriptorBytes = subarray pixels (8 + i + extraSize)
                                  (8 + i + extraSize + descriptorSize)
          in if length descriptorBytes < descriptorSize \<or> length extraBytes < extraSize
             then Continue
             else Push (SpeedyKeypoint xf yf lod rotation score descriptorBytes extraBytes))"

text \<open>The loop \<open>for(let i = 0; i < size; i += bytesPerKeypoint)\<close>, from offset \<open>i\<close> on.\<close>

function decode_loop ::
  "globals \<Rightarrow> byte list \<Rightarrow> nat \<Rightarrow> nat \<Rightarrow> nat \<Rightarrow> nat \<Rightarrow> keypoint list \<Rightarrow> keypoint list" where
  "decode_loop g pixels descriptorSize extraSize sz i keypoints =
     (if i < sz then
        (case cell g pixels descriptorSize extraSize i of
           Break \<Rightarrow> keypoints
         | Continue \<Rightarrow>
             decode_loop g pixels descriptorSize extraSize sz
               (i + bytesPerKeypoint descriptorSize extraSize) keypoints
         | Push k \<Rightarrow>
             decode_loop g pixels descriptorSize extraSize sz
               (i + bytesPerKeypoint descriptorSize extraSize) (keypoints @ [k]))
      else keypoints)"
  by pat_completeness auto
termination
  by (relation "measure (\<lambda>(g, pixels, descriptorSize, extraSize, sz, i, keypoints). sz - i)")
     (auto simp: bytesPerKeypoint_def pixelsPerKeypoint_def MIN_KEYPOINT_SIZE_def)

declare decode_loop.simps [simp del]

text \<open>
  \<open>_decode(pixels, descriptorSize, extraSize, encoderLength)\<close>. The sizes and the
  encoder length are natural numbers. The copy \<open>new Uint8Array(pixels)\<close> that the
  function makes of a shared buffer has the same contents and is left out.
\<close>

definition decode :: "globals \<Rightarrow> byte list \<Rightarrow> nat \<Rightarrow> nat \<Rightarrow> nat \<Rightarrow> keypoint list" where
  "decode g pixels descriptorSize extraSize encoderLength =
    (let e = encoderLength;
         e2 = e * e * pixelsPerKeypoint descriptorSize extraSize * 4;
         sz = min (length pixels) e2
     in decode_loop g pixels descriptorSize extraSize sz 0 [])"

text \<open>
  Two notions used to state properties of the decoder: the keypoints that one iteration
  appends to the output, and the end-of-list mark \<open>FF FF FF FF\<close> in the four position
  bytes of the cell at offset \<open>i\<close>.
\<close>

definition emitted :: "iteration \<Rightarrow> keypoint list" where
  "emitted r = (case r of Push k \<Rightarrow> [k] | _ \<Rightarrow> [])"

definition null_cell :: "byte list \<Rightarrow> nat \<Rightarrow> bool" where
  "null_cell pixels i \<longleftrightarrow>
     elem pixels i = Some 0xFF \<and> elem pixels (i + 1) = Some 0xFF \<and>
     elem pixels (i + 2) = Some 0xFF \<and> elem pixels (i + 3) = Some 0xFF"

text \<open>The value a byte read contributes to a bitwise expression: 0 when out of range.\<close>

definition byteval :: "byte option \<Rightarrow> int" where
  "byteval v = (case v of None \<Rightarrow> 0 | Some b \<Rightarrow> uint b)"

text \<open>Sample values of the three constants, for the concrete evaluations below.\<close>

definition G0 :: globals where
  "G0 = \<lparr>FIX_RESOLUTION = 8, LOG2_PYRAMID_MAX_SCALE = 0, PYRAMID_MAX_LEVELS = 8\<rparr>"

section \<open>The keypoint encoder kernel (encode-keypoints.glsl)\<close>

text \<open>
  Textures are RGBA8: a texel is modelled by its four stored bytes, and a channel read
  \<open>c\<close> in the shader stands for the byte \<open>255 * c\<close>. So \<open>pixel.r > 0.0f\<close> is
  \<open>0 < chan_r pixel\<close> and \<open>int(pixel.b * 255.0f)\<close> is the byte \<open>chan_b pixel\<close>. A
  sampler is the function from texel coordinates to texels that \<open>texelFetch\<close> computes.
  GLSL integers are modelled by unbounded integers, \<open>/\<close> and \<open>%\<close> by the truncating
  \<open>sdiv\<close> and \<open>smod\<close>.
\<close>

type_synonym ivec2 = "int \<times> int"

datatype vec4 = Vec4 (chan_r: byte) (chan_g: byte) (chan_b: byte) (chan_a: byte)

type_synonym sampler2D = "ivec2 \<Rightarrow> vec4"

datatype KeypointAddress = KeypointAddress (base: int) (offset: int)

text \<open>
  The shader includes keypoints.glsl, which is not among the sources at hand. What the
  kernel calls from it is a parameter of the model: the address and index of the keypoint
  a thread works for, the encodings of the null keypoint and of a position, and the value
  of \<open>encodeKeypointFlags(KPF_NONE)\<close>.
\<close>

record prelude =
  findKeypointAddress :: "ivec2 \<Rightarrow> int \<Rightarrow> int \<Rightarrow> int \<Rightarrow> KeypointAddress"
  findKeypointIndex :: "KeypointAddress \<Rightarrow> int \<Rightarrow> int \<Rightarrow> int"
  encodeNullKeypoint :: vec4
  encodeKeypointPosition :: "ivec2 \<Rightarrow> vec4"
  encodeKeypointFlags_NONE :: byte

record uniforms =
  image_tex :: sampler2D
  encodedKeypoints :: sampler2D
  imageSize :: ivec2
  tileSize :: int
  tileIndex :: int
  descriptorSize :: int
  extraSize :: int
  encoderLength :: int

text \<open>
  The \<open>while\<close> loop of \<open>findQthKeypoint\<close>, on its variables \<open>i\<close>, \<open>p\<close>,
  \<open>position\<close> and \<open>pixel\<close> (\<open>None\<close> while \<open>pixel\<close> has not been assigned). The
  model covers images of positive width: the result is \<open>None\<close> when the body would
  divide by an \<open>imageSize.x\<close> that is not positive.
\<close>

function findQthKeypoint_while ::
  "sampler2D \<Rightarrow> ivec2 \<Rightarrow> int \<Rightarrow> int \<Rightarrow> int \<Rightarrow> ivec2 \<Rightarrow> vec4 option \<Rightarrow>
   (int \<times> ivec2 \<times> vec4 option) option" where
  "findQthKeypoint_while img isz q i p position pixel =
     (if snd position < snd isz \<and> p \<noteq> q then
        (if fst isz \<le> 0 then None
         else
           let pixel' = img position;
               p' = p + (if 0 < chan_r pixel' then 1 else 0);
               i' = i + 1 + uint (chan_b pixel');
               position' = (i' smod fst isz, i' sdiv fst isz)
           in findQthKeypoint_while img isz q i' p' position' (Some pixel'))
      else Some (p, position, pixel))"
  by pat_completeness auto
termination
proof (relation "measure (\<lambda>(img, isz, q, i, p, position, pixel).
          2 * nat (fst isz * snd isz - i) + (if snd position < snd isz then 1 else 0))",
       goal_cases)
  case 1
  show ?case by simp
next
  case (2 img isz q i p position pixel x xa xb xc)
  define w where "w = fst isz"
  define h where "h = snd isz"
  have w: "0 < w" and y: "snd position < h"
    using 2 by (simp_all add: w_def h_def)
  have step: "i < xb"
    using 2 by (simp add: add_pos_nonneg)
  have xc: "snd xc = xb sdiv w"
    using 2 by (simp add: w_def)
  define a where "a = nat (w * h - xb)"
  define b where "b = nat (w * h - i)"
  have "2 * a + (if snd xc < h then 1 else 0) < 2 * b + (if snd position < h then 1 else (0::nat))"
  proof (cases "i < w * h")
    case True
    then have "a < b"
      using step by (simp add: a_def b_def)
    then show ?thesis
      using y by simp
  next
    case False
    then have "w * h \<le> xb" using step by simp
    then have "h \<le> xb div w"
      using w by (metis mult.commute pos_imp_zdiv_nonneg_iff
          nonzero_mult_div_cancel_left zdiv_mono1 less_irrefl)
    also have "xb div w \<le> xb sdiv w"
      by (simp add: signed_divide_int_eq_divide_int)
    finally have "\<not> snd xc < h" using xc by simp
    moreover have "a = 0" "b = 0"
      using False step by (simp_all add: a_def b_def)
    ultimately show ?thesis
      using y by simp
  qed
  then show ?case
    by (simp add: a_def b_def w_def h_def)
qed

declare findQthKeypoint_while.simps [simp del]

text \<open>
  \<open>findQthKeypoint(q, position, pixel)\<close>: the returned truth value with the two
  \<open>out\<close> parameters.
\<close>

definition findQthKeypoint ::
  "sampler2D \<Rightarrow> ivec2 \<Rightarrow> int \<Rightarrow> (bool \<times> ivec2 \<times> vec4 option) option" where
  "findQthKeypoint img isz q =
     (case findQthKeypoint_while img isz q 0 (- 1) (0, 0) None of
        None \<Rightarrow> None
      | Some (p, position, pixel) \<Rightarrow> Some (p = q, position, pixel))"

text \<open>
  \<open>main\<close>, for the thread at \<open>thread = threadLocation()\<close>: the value of \<open>color\<close>
  when the shader returns. \<open>threadPixel(encodedKeypoints)\<close> is the texel of
  \<open>encodedKeypoints\<close> at the location of the thread. The result is \<open>None\<close> where the
  program leaves it undefined: a division by \<open>tileSize = 0\<close>, a scan of an image whose
  width is not positive, a read of \<open>pixel\<close> before any assignment.
\<close>

definition main :: "prelude \<Rightarrow> uniforms \<Rightarrow> ivec2 \<Rightarrow> vec4 option" where
  "main P U thread =
    (let address = findKeypointAddress P thread (encoderLength U) (descriptorSize U) (extraSize U);
         q = findKeypointIndex P address (descriptorSize U) (extraSize U);
         color = encodedKeypoints U thread
     in if tileSize U = 0 then None
        else
          let tilePos = (fst thread sdiv tileSize U, snd thread sdiv tileSize U);
              tileStride = encoderLength U sdiv tileSize U;
              tile = snd tilePos * tileStride + fst tilePos
          in if tile \<noteq> tileIndex U then Some color
             else if offset address > 1 then Some (Vec4 0 0 0 0)
             else
               (case findQthKeypoint (image_tex U) (imageSize U) q of
                  None \<Rightarrow> None
                | Some (found, position, pixel) \<Rightarrow>
                    if \<not> found then Some (encodeNullKeypoint P)
                    else if offset address = 1 then
                      (case pixel of
                         None \<Rightarrow> None
                       | Some px \<Rightarrow>
                           Some (Vec4 (chan_a px) 0 (chan_r px) (encodeKeypointFlags_NONE P)))
                    else Some (encodeKeypointPosition P position)))"

text \<open>
  Modelled from the spec: the functions of keypoints.glsl that the kernel calls
  (\<open>findKeypointAddress\<close>, \<open>findKeypointIndex\<close>, \<open>encodeNullKeypoint\<close>,
  \<open>encodeKeypointPosition\<close>) are missing from the sources. The description of the
  packed encoding fixes them: the texture is cut, in row-major order, into cells of
  \<open>ceil((MIN_KEYPOINT_SIZE + descriptorSize + extraSize) / 4)\<close> pixels, one cell per
  keypoint; pixel 0 of a cell holds \<open>xLo xHi yLo yHi\<close>, the position in fixed point with
  resolution \<open>FIX_RESOLUTION\<close>; the null keypoint is \<open>FF FF FF FF\<close>. The value of
  \<open>encodeKeypointFlags(KPF_NONE)\<close> is not described and stays a parameter.
\<close>

definition spec_findKeypointAddress :: "ivec2 \<Rightarrow> int \<Rightarrow> int \<Rightarrow> int \<Rightarrow> KeypointAddress" where
  "spec_findKeypointAddress thread e ds es =
    (let threadRaster = snd thread * e + fst thread;
         ppk = int (pixelsPerKeypoint (nat ds) (nat es))
     in KeypointAddress ((threadRaster sdiv ppk) * ppk) (threadRaster smod ppk))"

definition spec_findKeypointIndex :: "KeypointAddress \<Rightarrow> int \<Rightarrow> int \<Rightarrow> int" where
  "spec_findKeypointIndex address ds es = base address sdiv int (pixelsPerKeypoint (nat ds) (nat es))"

definition spec_encodeNullKeypoint :: vec4 where
  "spec_encodeNullKeypoint = Vec4 0xFF 0xFF 0xFF 0xFF"

definition spec_encodeKeypointPosition :: "globals \<Rightarrow> ivec2 \<Rightarrow> vec4" where
  "spec_encodeKeypointPosition g position =
    (let xraw = \<lfloor>real_of_int (fst position) * FIX_RESOLUTION g\<rfloor>;
         yraw = \<lfloor>real_of_int (snd position) * FIX_RESOLUTION g\<rfloor>
     in Vec4 (word_of_int xraw) (word_of_int (xraw div 256))
             (word_of_int yraw) (word_of_int (yraw div 256)))"

definition spec_prelude :: "globals \<Rightarrow> byte \<Rightarrow> prelude" where
  "spec_prelude g flags =
     \<lparr>findKeypointAddress = spec_findKeypointAddress,
      findKeypointIndex = spec_findKeypointIndex,
      encodeNullKeypoint = spec_encodeNullKeypoint,
      encodeKeypointPosition = spec_encodeKeypointPosition g,
      encodeKeypointFlags_NONE = flags\<rparr>"

text \<open>The tile of a thread, as \<open>main\<close> computes it.\<close>

definition tile_of :: "uniforms \<Rightarrow> ivec2 \<Rightarrow> int" where
  "tile_of U thread =
     snd thread sdiv tileSize U * (encoderLength U sdiv tileSize U) + fst thread sdiv tileSize U"

text \<open>
  A sparse image of two pixels with one keypoint, at (0, 0), and the uniforms of a pass
  over a 2 x 2 encoder texture in one tile, for the concrete evaluations below.
\<close>

definition img1 :: sampler2D where
  "img1 = (\<lambda>position. if position = (0, 0) then Vec4 1 0 0 0 else Vec4 0 0 0 0)"

definition U1 :: uniforms where
  "U1 = \<lparr>image_tex = img1, encodedKeypoints = (\<lambda>position. Vec4 7 7 7 7),
         imageSize = (2, 1), tileSize = 2, tileIndex = 0,
         descriptorSize = 0, extraSize = 0, encoderLength = 2\<rparr>"

text \<open>
  A sparse image of 3 x 2 pixels with three keypoints, at the row-major indices 0, 2
  and 3, with the scores 1, 2, 3 and the scale bytes 5, 6, 7; the first one has the skip
  offset 1. The uniforms are those of a pass over a 3 x 3 encoder texture in one tile, with
  two descriptor bytes and two extra bytes per keypoint: three cells of three pixels fill
  the texture.
\<close>

definition img2 :: sampler2D where
  "img2 = (\<lambda>position. if position = (0, 0) then Vec4 1 0 1 5
                      else if position = (2, 0) then Vec4 2 0 0 6
                      else if position = (0, 1) then Vec4 3 0 0 7
                      else Vec4 0 0 0 0)"

definition U2 :: uniforms where
  "U2 = \<lparr>image_tex = img2, encodedKeypoints = (\<lambda>position. Vec4 7 7 7 7),
         imageSize = (3, 2), tileSize = 3, tileIndex = 0,
         descriptorSize = 2, extraSize = 2, encoderLength = 3\<rparr>"

text \<open>
  The sparse image that the kernel reads, as the description of the raw encoding has it:
  the texel with row-major index \<open>k\<close> of an image of width \<open>w\<close>; the indices of the
  keypoints (the texels with a positive score \<open>R\<close>), in row-major order; and the
  validity of the skip offsets: the \<open>B\<close> texels that follow texel \<open>k\<close> hold no
  keypoint.
\<close>

definition texel_at :: "sampler2D \<Rightarrow> nat \<Rightarrow> nat \<Rightarrow> vec4" where
  "texel_at img w k = img (int (k mod w), int (k div w))"

definition keypoint_indices :: "sampler2D \<Rightarrow> nat \<Rightarrow> nat \<Rightarrow> nat list" where
  "keypoint_indices img w h = filter (\<lambda>k. 0 < chan_r (texel_at img w k)) [0..<w * h]"

definition valid_skips :: "sampler2D \<Rightarrow> nat \<Rightarrow> nat \<Rightarrow> bool" where
  "valid_skips img w h \<longleftrightarrow>
     (\<forall>k \<in> set [0..<w * h].
        \<forall>j \<in> set [k + 1..<k + 1 + unat (chan_b (texel_at img w k))].
          chan_r (texel_at img w j) = 0)"

text \<open>
  Modelled from the spec: the encoder node that dispatches the kernel, and the read-back
  of the texture, are not among the sources. The work is tiled via the \<open>tileIndex\<close>
  uniform, each invocation handling the cells of one tile; a texel of the encoded texture
  is what the invocation for the tile of its thread writes (the other invocations copy
  it). The read-back is a flat byte buffer in row-major RGBA order, four bytes per texel,
  of the square texture of side \<open>encoderLength\<close>. It is \<open>None\<close> when a texel is
  undefined.
\<close>

definition encode_texture :: "prelude \<Rightarrow> uniforms \<Rightarrow> ivec2 \<Rightarrow> vec4 option" where
  "encode_texture P U thread = main P (U\<lparr>tileIndex := tile_of U thread\<rparr>) thread"

definition texel_bytes :: "vec4 \<Rightarrow> byte list" where
  "texel_bytes t = [chan_r t, chan_g t, chan_b t, chan_a t]"

definition readPixels :: "nat \<Rightarrow> (ivec2 \<Rightarrow> vec4 option) \<Rightarrow> byte list option" where
  "readPixels e tex =
     map_option (\<lambda>texels. concat (map texel_bytes texels))
       (those (map (\<lambda>r. tex (int (r mod e), int (r div e))) [0..<e * e]))"

text \<open>Encoding a sparse image with the kernel and decoding the bytes read back.\<close>

definition encode_then_decode :: "globals \<Rightarrow> byte \<Rightarrow> uniforms \<Rightarrow> keypoint list option" where
  "encode_then_decode g flags U =
     map_option
       (\<lambda>pixels. decode g pixels (nat (descriptorSize U)) (nat (extraSize U))
                   (nat (encoderLength U)))
       (readPixels (nat (encoderLength U)) (encode_texture (spec_prelude g flags) U))"

text \<open>The level of detail that the decoder computes from the byte \<open>pixels[i+4]\<close>.\<close>

definition lod_of_byte :: "globals \<Rightarrow> byte \<Rightarrow> real" where
  "lod_of_byte g b =
     (if b < 255
      then - LOG2_PYRAMID_MAX_SCALE g +
           ((LOG2_PYRAMID_MAX_SCALE g + PYRAMID_MAX_LEVELS g) * real (unat b)) / 255
      else 0)"

text \<open>
  The setting of an encoder run: the sizes that the uniforms give, a tile size that is
  not zero, and a sparse image of positive width with valid skip offsets.
\<close>

definition encoder_setup :: "uniforms \<Rightarrow> nat \<Rightarrow> nat \<Rightarrow> nat \<Rightarrow> nat \<Rightarrow> nat \<Rightarrow> bool" where
  "encoder_setup U w h e ds es \<longleftrightarrow>
     imageSize U = (int w, int h) \<and> encoderLength U = int e \<and>
     descriptorSize U = int ds \<and> extraSize U = int es \<and>
     tileSize U \<noteq> 0 \<and> 0 < w \<and> valid_skips (image_tex U) w h"

text \<open>
  What the scan returns when it starts with \<open>p < q\<close> and \<open>rest\<close> lists the keypoints
  still ahead: the texel of the keypoint it was asked for, if there are enough of them.
\<close>

definition scanned :: "sampler2D \<Rightarrow> nat \<Rightarrow> int \<Rightarrow> int \<Rightarrow> nat list \<Rightarrow> (int \<times> ivec2 \<times> vec4 option) option \<Rightarrow> bool" where
  "scanned img w q p rest res \<longleftrightarrow>
     (case res of
        None \<Rightarrow> False
      | Some (p', position, pixel') \<Rightarrow>
          if nat (q - p) \<le> length rest
          then p' = q \<and> pixel' = Some (texel_at img w (rest ! (nat (q - p) - 1))) \<and>
               (\<exists>k'. position = (int (k' mod w), int (k' div w)))
          else p' \<noteq> q)"

section \<open>The matrix routines (matrix-math.js)\<close>

text \<open>
  The entries of a typed array are JavaScript numbers. They are modelled by the elements
  of a ring, computed with exactly, and the value \<open>NaN\<close>. A read beyond the end of a
  typed array gives \<open>undefined\<close>, which every arithmetic operation turns into \<open>NaN\<close>
  and which a \<open>Float32Array\<close> or \<open>Float64Array\<close> stores as \<open>NaN\<close>: \<open>rd\<close> returns
  \<open>NaN\<close> there. A write beyond the end is ignored, as \<open>xs[i := v]\<close> is.
\<close>

datatype 'a number = Num 'a | NaN

fun add_number :: "'a::ring number \<Rightarrow> 'a number \<Rightarrow> 'a number" where
  "add_number (Num u) (Num v) = Num (u + v)"
| "add_number _ _ = NaN"

fun sub_number :: "'a::ring number \<Rightarrow> 'a number \<Rightarrow> 'a number" where
  "sub_number (Num u) (Num v) = Num (u - v)"
| "sub_number _ _ = NaN"

fun mul_number :: "'a::ring number \<Rightarrow> 'a number \<Rightarrow> 'a number" where
  "mul_number (Num u) (Num v) = Num (u * v)"
| "mul_number _ _ = NaN"

type_synonym 'a TypedArray = "'a number list"

definition rd :: "'a TypedArray \<Rightarrow> nat \<Rightarrow> 'a number" where
  "rd xs i = (if i < length xs then xs ! i else NaN)"

text \<open>
  \<open>output.fill(value, start, end)\<close> writes the indices from \<open>start\<close> up to, not
  including, \<open>end\<close>, as far as they exist.
\<close>

definition js_fill :: "'a TypedArray \<Rightarrow> 'a number \<Rightarrow> nat \<Rightarrow> nat \<Rightarrow> 'a TypedArray" where
  "js_fill xs v start end = fold (\<lambda>k ys. ys[k := v]) [start..<end] xs"

text \<open>
  \<open>output.set(input, 0, length)\<close>: \<open>set\<close> takes a source and an offset, and ignores a
  third argument. It copies the whole source to the front of the target, and throws a
  RangeError, writing nothing, when the source is longer than the target.
\<close>

datatype error = RangeError

definition js_set :: "'a TypedArray \<Rightarrow> 'a TypedArray \<Rightarrow> error + 'a TypedArray" where
  "js_set output input =
     (if length output < length input then Inl RangeError
      else Inr (input @ drop (length input) output))"

text \<open>
  Counting: the loop \<open>for(i = 0; i < n; i++)\<close> is \<open>fold body [0..<n]\<close>. A loop that
  advances offsets along with the counter,
  \<open>for(x = j = 0; j < n; j++, x += d)\<close> or
  \<open>for(x = y = j = 0; j < n; j++, x += d, y += e)\<close>, is \<open>for1\<close> or \<open>for2\<close>:
  the body gets the counter and the current offsets.
\<close>

function for2_from ::
  "nat \<Rightarrow> nat \<Rightarrow> nat \<Rightarrow> nat \<Rightarrow> nat \<Rightarrow> nat \<Rightarrow> (nat \<Rightarrow> nat \<Rightarrow> nat \<Rightarrow> 's \<Rightarrow> 's) \<Rightarrow> 's \<Rightarrow> 's" where
  "for2_from n d e j x y body s =
     (if j < n then for2_from n d e (j + 1) (x + d) (y + e) body (body j x y s) else s)"
  by pat_completeness auto
termination
  by (relation "measure (\<lambda>(n, d, e, j, x, y, body, s). n - j)") auto

declare for2_from.simps [simp del]

definition for2 :: "nat \<Rightarrow> nat \<Rightarrow> nat \<Rightarrow> (nat \<Rightarrow> nat \<Rightarrow> nat \<Rightarrow> 's \<Rightarrow> 's) \<Rightarrow> 's \<Rightarrow> 's" where
  "for2 n d e body s = for2_from n d e 0 0 0 body s"

definition for1 :: "nat \<Rightarrow> nat \<Rightarrow> (nat \<Rightarrow> nat \<Rightarrow> 's \<Rightarrow> 's) \<Rightarrow> 's \<Rightarrow> 's" where
  "for1 n d body s = for2_from n d 0 0 0 0 (\<lambda>j x y. body j x) s"

text \<open>
  The header of an operation: shape, stride and length of the output, the \<open>custom\<close>
  data of FILL and SCALE, and the shapes, strides and lengths of the inputs. The routines
  destructure the lists of the inputs; the model describes the calls that pass as many
  inputs, and as many entries in these lists, as the routine destructures.
\<close>

record 'a header =
  rows :: nat
  columns :: nat
  stride :: nat
  length' :: nat
  custom_value :: "'a number"
  custom_scalar :: "'a number"
  rowsOfInputs :: "nat list"
  columnsOfInputs :: "nat list"
  strideOfInputs :: "nat list"
  lengthOfInputs :: "nat list"

definition nop :: "'a header \<Rightarrow> 'a TypedArray \<Rightarrow> 'a TypedArray list \<Rightarrow> 'a TypedArray" where
  "nop h output inputs = output"

definition fill :: "'a header \<Rightarrow> 'a TypedArray \<Rightarrow> 'a TypedArray list \<Rightarrow> 'a TypedArray" where
  "fill h output inputs =
     (if rows h * columns h = length' h then js_fill output (custom_value h) 0 (length' h)
      else fold (\<lambda>j out. js_fill out (custom_value h) (j * stride h) (j * stride h + rows h))
             [0..<columns h] output)"

definition copy :: "'a header \<Rightarrow> 'a TypedArray \<Rightarrow> 'a TypedArray list \<Rightarrow> error + 'a TypedArray" where
  "copy h output inputs =
    (let strideI = strideOfInputs h ! 0; input = inputs ! 0
     in if length' h = lengthOfInputs h ! 0 \<and> rows h * columns h = length' h
        then js_set output input
        else Inr (for2 (columns h) (stride h) strideI
               (\<lambda>j oj ij out. fold (\<lambda>i out. out[oj + i := rd input (ij + i)]) [0..<rows h] out)
               output))"

definition transpose_matrix :: "'a header \<Rightarrow> 'a TypedArray \<Rightarrow> 'a TypedArray list \<Rightarrow> 'a TypedArray" where
  "transpose_matrix h output inputs =
    (let strideT = strideOfInputs h ! 0; input = inputs ! 0
     in for1 (rows h) strideT
          (\<lambda>i ii out. for1 (columns h) (stride h)
             (\<lambda>j oj out. out[oj + i := rd input (ii + j)]) out)
          output)"

definition add :: "'a::ring header \<Rightarrow> 'a TypedArray \<Rightarrow> 'a TypedArray list \<Rightarrow> 'a TypedArray" where
  "add h output inputs =
    (let strideA = strideOfInputs h ! 0; strideB = strideOfInputs h ! 1;
         a = inputs ! 0; b = inputs ! 1
     in fold (\<lambda>j out.
          let oj = j * stride h; aj = j * strideA; bj = j * strideB
          in fold (\<lambda>i out. out[oj + i := add_number (rd a (aj + i)) (rd b (bj + i))])
               [0..<rows h] out)
        [0..<columns h] output)"

definition subtract :: "'a::ring header \<Rightarrow> 'a TypedArray \<Rightarrow> 'a TypedArray list \<Rightarrow> 'a TypedArray" where
  "subtract h output inputs =
    (let strideA = strideOfInputs h ! 0; strideB = strideOfInputs h ! 1;
         a = inputs ! 0; b = inputs ! 1
     in fold (\<lambda>j out.
          let oj = j * stride h; aj = j * strideA; bj = j * strideB
          in fold (\<lambda>i out. out[oj + i := sub_number (rd a (aj + i)) (rd b (bj + i))])
               [0..<rows h] out)
        [0..<columns h] output)"

text \<open>The clearing of the output that \<open>multiply\<close> and \<open>multiplyrt\<close> start with.\<close>

definition clear_matrix :: "'a::ring header \<Rightarrow> 'a TypedArray \<Rightarrow> 'a TypedArray" where
  "clear_matrix h output =
     (if rows h * columns h \<noteq> length' h
      then fold (\<lambda>c out. js_fill out (Num 0) (c * stride h) (c * stride h + rows h))
             [0..<columns h] output
      else js_fill output (Num 0) 0 (length' h))"

definition multiply :: "'a::ring header \<Rightarrow> 'a TypedArray \<Rightarrow> 'a TypedArray list \<Rightarrow> 'a TypedArray" where
  "multiply h output inputs =
    (let columnsA = columnsOfInputs h ! 0; columnsB = columnsOfInputs h ! 1;
         strideA = strideOfInputs h ! 0; strideB = strideOfInputs h ! 1;
         a = inputs ! 0; b = inputs ! 1
     in for2 columnsB (stride h) strideB
          (\<lambda>k ok bk out. for1 columnsA strideA
             (\<lambda>j aj out.
                let bjk = rd b (bk + j)
                in fold (\<lambda>i out. out[ok + i :=
                           add_number (rd out (ok + i)) (mul_number (rd a (aj + i)) bjk)])
                     [0..<rows h] out)
             out)
          (clear_matrix h output))"

definition multiplylt :: "'a::ring header \<Rightarrow> 'a TypedArray \<Rightarrow> 'a TypedArray list \<Rightarrow> 'a TypedArray" where
  "multiplylt h output inputs =
    (let columnsA = columnsOfInputs h ! 0; columnsB = columnsOfInputs h ! 1;
         rowsB = rowsOfInputs h ! 1;
         strideA = strideOfInputs h ! 0; strideB = strideOfInputs h ! 1;
         a = inputs ! 0; b = inputs ! 1
     in for2 columnsB (stride h) strideB
          (\<lambda>k ok bk out. for1 columnsA strideA
             (\<lambda>j aj out.
                let ojk = ok + j
                in fold (\<lambda>i out. out[ojk :=
                           add_number (rd out ojk) (mul_number (rd a (aj + i)) (rd b (bk + i)))])
                     [0..<rowsB] (out[ojk := Num 0]))
             out)
          output)"

definition multiplyrt :: "'a::ring header \<Rightarrow> 'a TypedArray \<Rightarrow> 'a TypedArray list \<Rightarrow> 'a TypedArray" where
  "multiplyrt h output inputs =
    (let columnsA = columnsOfInputs h ! 0;
         rowsB = rowsOfInputs h ! 1;
         strideA = strideOfInputs h ! 0; strideB = strideOfInputs h ! 1;
         a = inputs ! 0; b = inputs ! 1
     in for2 columnsA strideA strideB
          (\<lambda>j aj bj out. for1 rowsB (stride h)
             (\<lambda>k ok out.
                let bkj = rd b (bj + k)
                in fold (\<lambda>i out. out[ok + i :=
                           add_number (rd out (ok + i)) (mul_number (rd a (aj + i)) bkj)])
                     [0..<rows h] out)
             out)
          (clear_matrix h output))"

definition scale :: "'a::ring header \<Rightarrow> 'a TypedArray \<Rightarrow> 'a TypedArray list \<Rightarrow> 'a TypedArray" where
  "scale h output inputs =
    (let scalar = custom_scalar h; input = inputs ! 0
     in fold (\<lambda>j out.
          let oj = j * stride h
          in fold (\<lambda>i out. out[oj + i := mul_number (rd input (oj + i)) scalar])
               [0..<rows h] out)
        [0..<columns h] output)"

definition compmult :: "'a::ring header \<Rightarrow> 'a TypedArray \<Rightarrow> 'a TypedArray list \<Rightarrow> 'a TypedArray" where
  "compmult h output inputs =
    (let strideA = strideOfInputs h ! 0; strideB = strideOfInputs h ! 1;
         a = inputs ! 0; b = inputs ! 1
     in fold (\<lambda>j out.
          let oj = j * stride h; aj = j * strideA; bj = j * strideB
          in fold (\<lambda>i out. out[oj + i := mul_number (rd a (aj + i)) (rd b (bj + i))])
               [0..<rows h] out)
        [0..<columns h] output)"

text \<open>The operation codes and the table \<open>Opcode2fun\<close> that maps them to the routines.\<close>

datatype Opcode = NOP | FILL | COPY | TRANSPOSE | ADD | SUBTRACT | MULTIPLY | SCALE
  | COMPMULT | MULTIPLYLT | MULTIPLYRT

fun Opcode2fun ::
  "Opcode \<Rightarrow> 'a::ring header \<Rightarrow> 'a TypedArray \<Rightarrow> 'a TypedArray list \<Rightarrow> error + 'a TypedArray" where
  "Opcode2fun NOP h output inputs = Inr (nop h output inputs)"
| "Opcode2fun FILL h output inputs = Inr (fill h output inputs)"
| "Opcode2fun COPY h output inputs = copy h output inputs"
| "Opcode2fun TRANSPOSE h output inputs = Inr (transpose_matrix h output inputs)"
| "Opcode2fun ADD h output inputs = Inr (add h output inputs)"
| "Opcode2fun SUBTRACT h output inputs = Inr (subtract h output inputs)"
| "Opcode2fun MULTIPLY h output inputs = Inr (multiply h output inputs)"
| "Opcode2fun SCALE h output inputs = Inr (scale h output inputs)"
| "Opcode2fun COMPMULT h output inputs = Inr (compmult h output inputs)"
| "Opcode2fun MULTIPLYLT h output inputs = Inr (multiplylt h output inputs)"
| "Opcode2fun MULTIPLYRT h output inputs = Inr (multiplyrt h output inputs)"

text \<open>
  A typed array of length \<open>len\<close> holds a matrix of \<open>rws\<close> rows and \<open>cls\<close>
  columns with stride \<open>strd\<close>: the stride is at least the number of rows, and the entry
  in the last row of the last column lies inside the array.
\<close>

definition holds_matrix :: "nat \<Rightarrow> nat \<Rightarrow> nat \<Rightarrow> nat \<Rightarrow> bool" where
  "holds_matrix len rws cls strd \<longleftrightarrow>
     rws \<le> strd \<and> (rws = 0 \<or> cls = 0 \<or> (cls - 1) * strd + rws \<le> len)"

text \<open>Headers and arrays for the concrete evaluations below.\<close>

definition hdr_lt :: "int header" where
  "hdr_lt = \<lparr>rows = 2, columns = 2, stride = 4, length' = 8, custom_value = NaN, custom_scalar = NaN,
     rowsOfInputs = [3, 3], columnsOfInputs = [2, 2], strideOfInputs = [3, 5], lengthOfInputs = [6, 10]\<rparr>"
definition hdr_t :: "int header" where
  "hdr_t = \<lparr>rows = 2, columns = 3, stride = 2, length' = 6, custom_value = NaN, custom_scalar = NaN,
     rowsOfInputs = [3], columnsOfInputs = [2], strideOfInputs = [3], lengthOfInputs = [6]\<rparr>"
definition hdr_mul :: "int header" where
  "hdr_mul = \<lparr>rows = 2, columns = 2, stride = 3, length' = 6, custom_value = NaN, custom_scalar = NaN,
     rowsOfInputs = [2, 3], columnsOfInputs = [3, 2], strideOfInputs = [2, 5], lengthOfInputs = [6, 10]\<rparr>"
definition mat_a :: "int TypedArray" where "mat_a = map Num [1, 2, 3, 4, 5, 6]"
definition mat_b :: "int TypedArray" where "mat_b = map Num [1, 0, 2, 9, 9, 0, 1, 3, 9, 9]"

definition hdr_s5 :: "int header" where
  "hdr_s5 = \<lparr>rows = 2, columns = 2, stride = 4, length' = 8, custom_value = NaN, custom_scalar = NaN,
     rowsOfInputs = [2, 2], columnsOfInputs = [2, 2], strideOfInputs = [4, 4], lengthOfInputs = [8, 8]\<rparr>"

definition s5_a :: "int TypedArray" where
  "s5_a = map Num [1, 3, 0, 0, 2, 4, 0, 0]"

definition s5_b :: "int TypedArray" where
  "s5_b = map Num [5, 7, 0, 0, 6, 8, 0, 0]"

definition s5_out :: "int TypedArray" where
  "s5_out = map Num [9, 9, 77, 78, 9, 9, 79, 80]"

definition hdr_s4 :: "int header" where
  "hdr_s4 = \<lparr>rows = 1, columns = 2, stride = 1, length' = 2, custom_value = NaN, custom_scalar = Num 10,
     rowsOfInputs = [1], columnsOfInputs = [2], strideOfInputs = [2], lengthOfInputs = [3]\<rparr>"

section \<open>Properties of the keypoint decoder\<close>

subsection \<open>The 16-bit little-endian fields\<close>

lemma uint_byte_less: "uint (b::byte) < 256"
  using uint_bounded [of b] by simp

lemma toInt32_ucast: "toInt32 v = ucast (case v of None \<Rightarrow> (0::byte) | Some b \<Rightarrow> b)"
  by (cases v) (simp_all add: toInt32_def)

lemma cat_bytes_uint:
  "uint (push_bit 8 (ucast (a::byte)) OR ucast (b::byte) :: 32 word) = 256 * uint a + uint b"
proof -
  have plus: "(push_bit 8 (ucast a) OR ucast b :: 32 word) = push_bit 8 (ucast a) + ucast b"
    using word_cat_eq_push_bit_or [of a b, where ?'c = 32] word_cat_eq [of a b, where ?'c = 32]
    by simp
  have ua: "uint (ucast a :: 32 word) = uint a" and ub: "uint (ucast b :: 32 word) = uint b"
    by (simp_all add: uint_up_ucast is_up)
  have "uint (push_bit 8 (ucast a) + ucast b :: 32 word)
      = (uint (ucast a :: 32 word) * 256 + uint (ucast b :: 32 word)) mod 2 ^ 32"
    by (simp add: uint_word_ariths push_bit_eq_mult mod_simps)
  also have "\<dots> = 256 * uint a + uint b"
    using uint_byte_less [of a] uint_byte_less [of b] unfolding ua ub by simp
  finally show ?thesis by (simp add: plus)
qed

lemma cat_bytes_sint:
  "sint (push_bit 8 (ucast (a::byte)) OR ucast (b::byte) :: 32 word) = 256 * uint a + uint b"
proof -
  have "0 \<le> 256 * uint a + uint b" "256 * uint a + uint b < 2 ^ 31"
    using uint_byte_less [of a] uint_byte_less [of b] by simp_all
  then have "signed_take_bit 31 (256 * uint a + uint b) = 256 * uint a + uint b"
    by (intro signed_take_bit_int_eq_self) linarith+
  then show ?thesis
    by (simp add: sint_uint cat_bytes_uint)
qed

lemma u16le_value:
  "u16le pixels hi lo = 256 * byteval (elem pixels hi) + byteval (elem pixels lo)"
  unfolding u16le_def toInt32_ucast cat_bytes_sint byteval_def
  by (simp split: option.splits)

lemma byteval_bounds: "0 \<le> byteval v" "byteval v \<le> 255"
proof -
  show "0 \<le> byteval v" by (simp add: byteval_def split: option.splits)
  show "byteval v \<le> 255"
  proof (cases v)
    case None then show ?thesis by (simp add: byteval_def)
  next
    case (Some b) then show ?thesis using uint_byte_less [of b] by (simp add: byteval_def)
  qed
qed

lemma byteval_255: "byteval v = 255 \<longleftrightarrow> v = Some 255"
proof (cases v)
  case None then show ?thesis by (simp add: byteval_def)
next
  case (Some b)
  have "uint b = 255 \<longleftrightarrow> b = 255"
    using word_uint_eq_iff [of b 255] by simp
  with Some show ?thesis by (simp add: byteval_def)
qed

lemma u16le_sentinel:
  "u16le pixels hi lo \<ge> 0xFFFF \<longleftrightarrow> elem pixels hi = Some 255 \<and> elem pixels lo = Some 255"
  using byteval_bounds [of "elem pixels hi"] byteval_bounds [of "elem pixels lo"]
    byteval_255 [of "elem pixels hi"] byteval_255 [of "elem pixels lo"]
  unfolding u16le_value by auto

lemma u16le_range: "0 \<le> u16le pixels hi lo" "u16le pixels hi lo \<le> 0xFFFF"
  using byteval_bounds [of "elem pixels hi"] byteval_bounds [of "elem pixels lo"]
  unfolding u16le_value by auto

subsection \<open>The loop, cell by cell\<close>

lemma bytesPerKeypoint_pos: "0 < bytesPerKeypoint ds es"
  by (simp add: bytesPerKeypoint_def pixelsPerKeypoint_def MIN_KEYPOINT_SIZE_def)

lemma cell_Break_iff: "cell g pixels ds es i = Break \<longleftrightarrow> null_cell pixels i"
  unfolding cell_def Let_def null_cell_def
  using u16le_sentinel [of pixels "i + 1" i] u16le_sentinel [of pixels "i + 3" "i + 2"]
  by auto

lemma decode_loop_Break:
  "i < sz \<Longrightarrow> cell g pixels ds es i = Break \<Longrightarrow> decode_loop g pixels ds es sz i kps = kps"
  by (subst decode_loop.simps) simp

lemma decode_loop_next:
  "i < sz \<Longrightarrow> cell g pixels ds es i \<noteq> Break \<Longrightarrow>
   decode_loop g pixels ds es sz i kps =
   decode_loop g pixels ds es sz (i + bytesPerKeypoint ds es) (kps @ emitted (cell g pixels ds es i))"
  by (subst decode_loop.simps) (simp add: emitted_def split: iteration.splits)

lemma decode_loop_done: "\<not> i < sz \<Longrightarrow> decode_loop g pixels ds es sz i kps = kps"
  by (subst decode_loop.simps) simp

lemma decode_loop_cells:
  assumes "c0 \<le> c1"
    and "\<And>c. c0 \<le> c \<Longrightarrow> c < c1 \<Longrightarrow>
           c * bytesPerKeypoint ds es < sz \<and> cell g pixels ds es (c * bytesPerKeypoint ds es) \<noteq> Break"
  shows "decode_loop g pixels ds es sz (c0 * bytesPerKeypoint ds es) kps =
         decode_loop g pixels ds es sz (c1 * bytesPerKeypoint ds es)
           (kps @ concat (map (\<lambda>c. emitted (cell g pixels ds es (c * bytesPerKeypoint ds es))) [c0..<c1]))"
  using assms
proof (induction c1 rule: dec_induct)
  case base
  then show ?case by simp
next
  case (step n)
  have "decode_loop g pixels ds es sz (n * bytesPerKeypoint ds es)
          (kps @ concat (map (\<lambda>c. emitted (cell g pixels ds es (c * bytesPerKeypoint ds es))) [c0..<n])) =
        decode_loop g pixels ds es sz (n * bytesPerKeypoint ds es + bytesPerKeypoint ds es)
          ((kps @ concat (map (\<lambda>c. emitted (cell g pixels ds es (c * bytesPerKeypoint ds es))) [c0..<n]))
            @ emitted (cell g pixels ds es (n * bytesPerKeypoint ds es)))"
    using step.prems [of n] step.hyps by (intro decode_loop_next) simp_all
  moreover have "decode_loop g pixels ds es sz (c0 * bytesPerKeypoint ds es) kps =
     decode_loop g pixels ds es sz (n * bytesPerKeypoint ds es)
          (kps @ concat (map (\<lambda>c. emitted (cell g pixels ds es (c * bytesPerKeypoint ds es))) [c0..<n]))"
    using step.prems step.hyps by (intro step.IH) simp_all
  ultimately show ?case
    using step.hyps by (simp add: add.commute)
qed

lemma decode_to_stop:
  assumes "\<And>c'. c' < d \<Longrightarrow>
             c' * bytesPerKeypoint ds es < min (length pixels) (e * e * pixelsPerKeypoint ds es * 4) \<and>
             cell g pixels ds es (c' * bytesPerKeypoint ds es) \<noteq> Break"
    and "d * bytesPerKeypoint ds es < min (length pixels) (e * e * pixelsPerKeypoint ds es * 4) \<Longrightarrow>
         cell g pixels ds es (d * bytesPerKeypoint ds es) = Break"
  shows "decode g pixels ds es e =
         concat (map (\<lambda>c'. emitted (cell g pixels ds es (c' * bytesPerKeypoint ds es))) [0..<d])"
proof -
  let ?sz = "min (length pixels) (e * e * pixelsPerKeypoint ds es * 4)"
  let ?b = "bytesPerKeypoint ds es"
  let ?out = "concat (map (\<lambda>c'. emitted (cell g pixels ds es (c' * ?b))) [0..<d])"
  have "decode_loop g pixels ds es ?sz (0 * ?b) [] =
        decode_loop g pixels ds es ?sz (d * ?b) ([] @ ?out)"
    using assms(1) by (intro decode_loop_cells) simp_all
  also have "\<dots> = ?out"
  proof (cases "d * ?b < ?sz")
    case True
    then show ?thesis
      using assms(2) by (simp add: decode_loop_Break)
  next
    case False
    then show ?thesis
      by (simp add: decode_loop_done)
  qed
  finally show ?thesis
    by (simp add: decode_def Let_def)
qed

lemma subarray_take_drop: "subarray pixels b e = take (e - b) (drop b pixels)"
  by (simp add: subarray_def drop_take)

lemma cell_Push:
  assumes "cell g pixels ds es i = Push k"
  shows "kp_extra k = subarray pixels (8 + i) (8 + i + es)"
    and "kp_descriptor k = subarray pixels (8 + i + es) (8 + i + es + ds)"
    and "ds \<le> length (kp_descriptor k)" and "es \<le> length (kp_extra k)"
  using assms by (auto simp: cell_def Let_def split: if_splits)

lemmas decode_eval = decode_def decode_loop.simps cell_def pixelsPerKeypoint_def
  bytesPerKeypoint_def MIN_KEYPOINT_SIZE_def u16le_def elem_def toInt32_def subarray_def
  Let_def G0_def Math_PI_def

subsection \<open>Order of the payload bytes\<close>

text \<open>
  C3. The claim reads the payload of a cell as descriptor bytes followed by extra bytes.
  The decoder takes the extra bytes first: in the cell below, with one extra byte and one
  descriptor byte, the descriptor of the decoded keypoint is byte 9 of the cell (\<open>BB\<close>),
  not byte 8 (\<open>AA\<close>).
\<close>

theorem descriptor_first_counterexample:
  "cell G0 [1, 0, 1, 0, 0, 0, 1, 0, 0xAA, 0xBB, 0, 0] 1 1 0 =
     Push (SpeedyKeypoint (1 / 8) (1 / 8) 0 (Some (- Math_PI)) 1 [0xBB] [0xAA]) \<and>
   \<not> (kp_descriptor (SpeedyKeypoint (1 / 8) (1 / 8) 0 (Some (- Math_PI)) 1 [0xBB] [0xAA]) =
        subarray [1, 0, 1, 0, 0, 0, 1, 0, 0xAA, 0xBB, 0, 0] 8 9 \<and>
       kp_extra (SpeedyKeypoint (1 / 8) (1 / 8) 0 (Some (- Math_PI)) 1 [0xBB] [0xAA]) =
        subarray [1, 0, 1, 0, 0, 0, 1, 0, 0xAA, 0xBB, 0, 0] 9 10)"
  by (simp add: decode_eval)

text \<open>
  C3, amended. For every cell that yields a keypoint, the bytes after the 8-byte header
  hold the extra bytes first and the descriptor bytes after them: the extra bytes of the
  keypoint are the cell bytes \<open>[8, 8 + extraSize)\<close>, its descriptor the cell bytes
  \<open>[8 + extraSize, 8 + extraSize + descriptorSize)\<close>, both of full length.
\<close>

theorem cell_extra_then_descriptor:
  assumes "cell g pixels ds es i = Push k"
  shows "kp_extra k = take es (drop (i + 8) pixels) \<and>
         kp_descriptor k = take ds (drop (i + 8 + es) pixels) \<and>
         length (kp_extra k) = es \<and> length (kp_descriptor k) = ds"
proof -
  have x: "kp_extra k = take es (drop (i + 8) pixels)"
    using cell_Push(1) [OF assms] by (simp add: subarray_take_drop add.commute)
  have d: "kp_descriptor k = take ds (drop (i + 8 + es) pixels)"
    using cell_Push(2) [OF assms] by (simp add: subarray_take_drop add.commute add.left_commute)
  have "length (kp_extra k) = es"
    using cell_Push(4) [OF assms] unfolding x by simp
  moreover have "length (kp_descriptor k) = ds"
    using cell_Push(3) [OF assms] unfolding d by simp
  ultimately show ?thesis using x d by simp
qed

theorem cell_extra_then_descriptor_witness:
  "cell G0 [1, 0, 1, 0, 0, 0, 1, 0, 0xAA, 0xBB, 0, 0] 1 1 0 =
     Push (SpeedyKeypoint (1 / 8) (1 / 8) 0 (Some (- Math_PI)) 1 [0xBB] [0xAA]) \<and>
   kp_extra (SpeedyKeypoint (1 / 8) (1 / 8) 0 (Some (- Math_PI)) 1 [0xBB] [0xAA]) = [0xAA] \<and>
   kp_descriptor (SpeedyKeypoint (1 / 8) (1 / 8) 0 (Some (- Math_PI)) 1 [0xBB] [0xAA]) = [0xBB]"
proof -
  have c: "cell G0 [1, 0, 1, 0, 0, 0, 1, 0, 0xAA, 0xBB, 0, 0] 1 1 0 =
    Push (SpeedyKeypoint (1 / 8) (1 / 8) 0 (Some (- Math_PI)) 1 [0xBB] [0xAA])"
    by (simp add: decode_eval)
  show ?thesis
    using cell_extra_then_descriptor [OF c] c by simp
qed

subsection \<open>End of list and empty cells\<close>

text \<open>
  C5. Among the cells that the loop visits (those that start below
  \<open>size = min(pixels.length, e2)\<close>), let cell number \<open>c\<close> be the first whose four
  position bytes are \<open>FF FF FF FF\<close>. Then the decoder returns exactly what the cells
  \<open>0, \<dots>, c - 1\<close> yield, in order; the cells from \<open>c\<close> on contribute nothing.
\<close>

theorem decode_stops_at_sentinel:
  assumes "c * bytesPerKeypoint ds es < min (length pixels) (e * e * pixelsPerKeypoint ds es * 4)"
    and "null_cell pixels (c * bytesPerKeypoint ds es)"
    and "\<forall>c'<c. \<not> null_cell pixels (c' * bytesPerKeypoint ds es)"
  shows "decode g pixels ds es e =
         concat (map (\<lambda>c'. emitted (cell g pixels ds es (c' * bytesPerKeypoint ds es))) [0..<c])"
proof -
  let ?sz = "min (length pixels) (e * e * pixelsPerKeypoint ds es * 4)"
  let ?b = "bytesPerKeypoint ds es"
  have below: "c' * ?b < ?sz" if "c' < c" for c'
  proof -
    have "c' * ?b \<le> c * ?b" using that by simp
    with assms(1) show ?thesis by linarith
  qed
  have "decode_loop g pixels ds es ?sz (0 * ?b) [] =
        decode_loop g pixels ds es ?sz (c * ?b)
          ([] @ concat (map (\<lambda>c'. emitted (cell g pixels ds es (c' * ?b))) [0..<c]))"
    using assms(3) below by (intro decode_loop_cells) (simp_all add: cell_Break_iff)
  also have "\<dots> = concat (map (\<lambda>c'. emitted (cell g pixels ds es (c' * ?b))) [0..<c])"
  proof -
    have "cell g pixels ds es (c * ?b) = Break"
      using assms(2) by (simp add: cell_Break_iff)
    with assms(1) show ?thesis
      by (simp add: decode_loop_Break)
  qed
  finally show ?thesis
    by (simp add: decode_def Let_def)
qed

text \<open>
  One keypoint, the end-of-list mark in cell 1, and a cell after the mark that would
  decode to a keypoint: only the first keypoint is returned.
\<close>

theorem decode_stops_at_sentinel_witness:
  "decode G0 [8, 0, 8, 0, 0, 0, 1, 0, 0xFF, 0xFF, 0xFF, 0xFF, 0, 0, 0, 0,
              8, 0, 8, 0, 0, 0, 1, 0] 0 0 2 =
     [SpeedyKeypoint 1 1 0 (Some (- Math_PI)) 1 [] []]"
  using decode_stops_at_sentinel [of 1 0 0
      "[8, 0, 8, 0, 0, 0, 1, 0, 0xFF, 0xFF, 0xFF, 0xFF, 0, 0, 0, 0, 8, 0, 8, 0, 0, 0, 1, 0]" 2 G0]
  by (simp add: null_cell_def emitted_def cell_def pixelsPerKeypoint_def bytesPerKeypoint_def
      MIN_KEYPOINT_SIZE_def u16le_def elem_def toInt32_def subarray_def Let_def G0_def
      Math_PI_def)

text \<open>
  C6. Let the loop reach cell number \<open>c\<close> (no cell before it holds the end-of-list
  mark), and let \<open>d\<close> be the cell at which the loop ends: the first cell after
  \<open>c\<close> that holds the mark or starts at or beyond \<open>size\<close>. If the raw x plus the
  raw y of cell \<open>c\<close> is 0 and its byte 6 is 0, then the cell yields no keypoint and the
  decoder goes on: it returns what the cells before \<open>c\<close> yield, followed by what the
  cells \<open>c + 1, \<dots>, d - 1\<close> yield.
\<close>

theorem empty_cell_skipped:
  assumes "c < d"
    and "\<forall>c'<d. c' * bytesPerKeypoint ds es < min (length pixels) (e * e * pixelsPerKeypoint ds es * 4) \<and>
                \<not> null_cell pixels (c' * bytesPerKeypoint ds es)"
    and "d * bytesPerKeypoint ds es < min (length pixels) (e * e * pixelsPerKeypoint ds es * 4) \<longrightarrow>
         null_cell pixels (d * bytesPerKeypoint ds es)"
    and "u16le pixels (c * bytesPerKeypoint ds es + 1) (c * bytesPerKeypoint ds es) +
         u16le pixels (c * bytesPerKeypoint ds es + 3) (c * bytesPerKeypoint ds es + 2) = 0"
    and "elem pixels (c * bytesPerKeypoint ds es + 6) = Some 0"
  shows "cell g pixels ds es (c * bytesPerKeypoint ds es) = Continue \<and>
         decode g pixels ds es e =
           concat (map (\<lambda>c'. emitted (cell g pixels ds es (c' * bytesPerKeypoint ds es))) [0..<c]) @
           concat (map (\<lambda>c'. emitted (cell g pixels ds es (c' * bytesPerKeypoint ds es))) [Suc c..<d])"
proof -
  let ?b = "bytesPerKeypoint ds es"
  let ?F = "\<lambda>c'. emitted (cell g pixels ds es (c' * ?b))"
  have k: "cell g pixels ds es (c * ?b) = Continue"
    using assms(4,5) by (simp add: cell_def Let_def)
  have "decode g pixels ds es e = concat (map ?F [0..<d])"
    using assms(2,3) by (intro decode_to_stop) (simp_all add: cell_Break_iff)
  moreover have "[0..<d] = [0..<c] @ c # [Suc c..<d]"
  proof -
    have "[0..<d] = [0..<c] @ [c..<d]"
      using assms(1) upt_add_eq_append [of 0 c "d - c"] by simp
    then show ?thesis
      using assms(1) by (simp add: upt_conv_Cons)
  qed
  moreover have "?F c = []"
    using k by (simp add: emitted_def)
  ultimately show ?thesis
    using k by simp
qed

text \<open>
  A keypoint, an empty cell and a second keypoint: both keypoints are returned.
\<close>

theorem empty_cell_skipped_witness:
  "cell G0 [8, 0, 8, 0, 0, 0, 1, 0, 0, 0, 0, 0, 0, 0, 0, 0, 16, 0, 8, 0, 0, 0, 2, 0] 0 0 8 = Continue \<and>
   decode G0 [8, 0, 8, 0, 0, 0, 1, 0, 0, 0, 0, 0, 0, 0, 0, 0, 16, 0, 8, 0, 0, 0, 2, 0] 0 0 2 =
     [SpeedyKeypoint 1 1 0 (Some (- Math_PI)) 1 [] [],
      SpeedyKeypoint 2 1 0 (Some (- Math_PI)) 2 [] []]"
proof -
  have b: "bytesPerKeypoint 0 0 = 8" "pixelsPerKeypoint 0 0 = 2"
    by (simp_all add: bytesPerKeypoint_def pixelsPerKeypoint_def MIN_KEYPOINT_SIZE_def)
  have v: "\<forall>c'<3. c' * bytesPerKeypoint 0 0 <
             min (length [8, 0, 8, 0, 0, 0, 1, 0, 0, 0, 0, 0, 0, 0, 0, 0, 16, 0, 8, 0, 0, 0, 2, (0::byte)])
                 (2 * 2 * pixelsPerKeypoint 0 0 * 4) \<and>
           \<not> null_cell [8, 0, 8, 0, 0, 0, 1, 0, 0, 0, 0, 0, 0, 0, 0, 0, 16, 0, 8, 0, 0, 0, 2, 0]
                 (c' * bytesPerKeypoint 0 0)"
    by (auto simp: b null_cell_def elem_def numeral_3_eq_3 less_Suc_eq)
  show ?thesis
    using empty_cell_skipped [of 1 3 0 0
      "[8, 0, 8, 0, 0, 0, 1, 0, 0, 0, 0, 0, 0, 0, 0, 0, 16, 0, 8, 0, 0, 0, 2, 0]" 2 G0, OF _ v]
    by (simp add: b emitted_def cell_def u16le_def elem_def toInt32_def subarray_def Let_def G0_def
      Math_PI_def upt_conv_Cons)
qed

text \<open>
  For every buffer and every cell \<open>c\<close> there is such a cell \<open>d\<close> at which the
  loop ends.
\<close>

lemma loop_end_exists:
  "\<exists>d>c. (\<forall>c'. c < c' \<and> c' < d \<longrightarrow>
              c' * bytesPerKeypoint ds es < sz \<and> \<not> null_cell pixels (c' * bytesPerKeypoint ds es)) \<and>
          (d * bytesPerKeypoint ds es < sz \<longrightarrow> null_cell pixels (d * bytesPerKeypoint ds es))"
proof -
  let ?b = "bytesPerKeypoint ds es"
  define P where "P d \<longleftrightarrow> c < d \<and> (d * ?b < sz \<longrightarrow> null_cell pixels (d * ?b))" for d
  have "sz \<le> Suc (c + sz) * ?b"
    using bytesPerKeypoint_pos [of ds es] by (cases ?b) simp_all
  then have "P (Suc (c + sz))"
    by (simp add: P_def)
  then obtain d where d: "P d" and least: "\<And>d'. d' < d \<Longrightarrow> \<not> P d'"
    using exists_least_iff [of P] by blast
  show ?thesis
  proof (intro exI [of _ d] conjI allI impI)
    show "c < d" using d by (simp add: P_def)
    show "null_cell pixels (d * ?b)" if "d * ?b < sz"
      using d that by (simp add: P_def)
    fix c' assume "c < c' \<and> c' < d"
    then show "c' * ?b < sz" "\<not> null_cell pixels (c' * ?b)"
      using least [of c'] by (auto simp: P_def)
  qed
qed

subsection \<open>Number and payload of the keypoints\<close>

text \<open>
  For every buffer and all sizes the decoder returns (the loop is a total function): at
  most one keypoint for each cell that starts below \<open>size\<close>, each with a descriptor of
  \<open>descriptorSize\<close> bytes and \<open>extraSize\<close> extra bytes.
\<close>

lemma decode_loop_length:
  "length (decode_loop g pixels ds es sz i kps) \<le>
     length kps + (sz - i + bytesPerKeypoint ds es - 1) div bytesPerKeypoint ds es"
proof (induction g pixels ds es sz i kps rule: decode_loop.induct)
  case (1 g pixels ds es sz i kps)
  let ?b = "bytesPerKeypoint ds es"
  have b: "0 < ?b" by (rule bytesPerKeypoint_pos)
  show ?case
  proof (cases "i < sz")
    case False
    then show ?thesis by (simp add: decode_loop_done)
  next
    case True
    have step: "(sz - (i + ?b) + ?b - 1) div ?b + 1 \<le> (sz - i + ?b - 1) div ?b"
    proof (cases "i + ?b \<le> sz")
      case True
      define x where "x = sz - (i + ?b) + ?b - 1"
      define y where "y = sz - i + ?b - 1"
      have "x + ?b = y"
        using True b unfolding x_def y_def by linarith
      moreover have "(x + ?b) div ?b = x div ?b + 1"
        using b by simp
      ultimately have "x div ?b + 1 \<le> y div ?b" by simp
      then show ?thesis unfolding x_def y_def .
    next
      case False
      define x where "x = sz - (i + ?b) + ?b - 1"
      define y where "y = sz - i + ?b - 1"
      have "x < ?b"
        using False b unfolding x_def by linarith
      then have "x div ?b = 0" by simp
      moreover have "?b \<le> y"
        using \<open>i < sz\<close> unfolding y_def by linarith
      then have "?b div ?b \<le> y div ?b"
        by (rule div_le_mono)
      then have "1 \<le> y div ?b" using b by simp
      ultimately have "x div ?b + 1 \<le> y div ?b" by simp
      then show ?thesis unfolding x_def y_def .
    qed
    show ?thesis
    proof (cases "cell g pixels ds es i")
      case Break
      then show ?thesis using True by (simp add: decode_loop_Break)
    next
      case Continue
      then have "decode_loop g pixels ds es sz i kps = decode_loop g pixels ds es sz (i + ?b) kps"
        using True by (subst decode_loop.simps) simp
      then show ?thesis
        using "1.IH"(1) [OF True Continue] step by simp
    next
      case (Push k)
      then have "decode_loop g pixels ds es sz i kps =
                 decode_loop g pixels ds es sz (i + ?b) (kps @ [k])"
        using True by (subst decode_loop.simps) simp
      then show ?thesis
        using "1.IH"(2) [OF True Push] step by simp
    qed
  qed
qed

lemma decode_length:
  "length (decode g pixels ds es e) \<le>
     (min (length pixels) (4 * (e * e) * pixelsPerKeypoint ds es) + 4 * pixelsPerKeypoint ds es - 1)
       div (4 * pixelsPerKeypoint ds es)"
proof -
  have eq: "e * e * pixelsPerKeypoint ds es * 4 = 4 * (e * e) * pixelsPerKeypoint ds es"
    by simp
  show ?thesis
    using decode_loop_length [of g pixels ds es
        "min (length pixels) (e * e * pixelsPerKeypoint ds es * 4)" 0 "[]"]
    unfolding decode_def Let_def bytesPerKeypoint_def eq by simp
qed

lemma decode_loop_payload:
  assumes "\<forall>k \<in> set kps. length (kp_descriptor k) = ds \<and> length (kp_extra k) = es"
  shows "\<forall>k \<in> set (decode_loop g pixels ds es sz i kps).
           length (kp_descriptor k) = ds \<and> length (kp_extra k) = es"
  using assms
proof (induction g pixels ds es sz i kps rule: decode_loop.induct)
  case (1 g pixels ds es sz i kps)
  show ?case
  proof (cases "i < sz")
    case False
    then have "decode_loop g pixels ds es sz i kps = kps"
      by (rule decode_loop_done)
    then show ?thesis using "1.prems" by (simp only:)
  next
    case True
    show ?thesis
    proof (cases "cell g pixels ds es i")
      case Break
      with True have "decode_loop g pixels ds es sz i kps = kps"
        by (rule decode_loop_Break)
      then show ?thesis using "1.prems" by (simp only:)
    next
      case Continue
      then have eq: "decode_loop g pixels ds es sz i kps =
                 decode_loop g pixels ds es sz (i + bytesPerKeypoint ds es) kps"
        using True by (subst decode_loop.simps) simp
      show ?thesis
        unfolding eq by (rule "1.IH"(1) [OF True Continue "1.prems"])
    next
      case (Push k)
      have "length (kp_descriptor k) \<le> ds" "length (kp_extra k) \<le> es"
        by (simp_all add: cell_Push(1,2) [OF Push] subarray_take_drop)
      then have "length (kp_descriptor k) = ds \<and> length (kp_extra k) = es"
        using cell_Push(3,4) [OF Push] by linarith
      then have all: "\<forall>k \<in> set (kps @ [k]). length (kp_descriptor k) = ds \<and> length (kp_extra k) = es"
        using "1.prems" by auto
      have eq: "decode_loop g pixels ds es sz i kps =
                 decode_loop g pixels ds es sz (i + bytesPerKeypoint ds es) (kps @ [k])"
        using True Push by (subst decode_loop.simps) simp
      show ?thesis
        unfolding eq by (rule "1.IH"(2) [OF True Push all])
    qed
  qed
qed

lemma decode_payload:
  "\<forall>k \<in> set (decode g pixels ds es e). length (kp_descriptor k) = ds \<and> length (kp_extra k) = es"
  unfolding decode_def Let_def by (rule decode_loop_payload) simp

subsection \<open>A buffer that ends inside a cell\<close>

text \<open>
  C9. The pixels of a 3 x 3 texture (36 bytes) with two-pixel cells: four whole cells,
  here empty, and one more pixel. The loop visits offset 32, where bytes 36 to 39 of the
  header lie beyond the buffer. They read as \<open>undefined\<close>; the cell is not recognised as
  empty or truncated, and a keypoint with score 0 and rotation NaN is returned.
\<close>

theorem decode_reads_past_the_buffer:
  "elem [0, 0, 0, 0, 0, 0, 0, 0, 0, 0, 0, 0, 0, 0, 0, 0, 0, 0, 0, 0, 0, 0, 0, 0, 0, 0, 0, 0,
         0, 0, 0, 0, 8, 0, 8, 0] (32 + 5) = None \<and>
   decode G0 [0, 0, 0, 0, 0, 0, 0, 0, 0, 0, 0, 0, 0, 0, 0, 0, 0, 0, 0, 0, 0, 0, 0, 0, 0, 0, 0, 0,
              0, 0, 0, 0, 8, 0, 8, 0] 0 0 3 =
     [SpeedyKeypoint 1 1 0 None 0 [] []]"
  by (simp add: decode_eval)

section \<open>Properties of the encoder kernel\<close>

lemmas encoder_eval = main_def findQthKeypoint_def findQthKeypoint_while.simps Let_def
  spec_prelude_def spec_findKeypointAddress_def spec_findKeypointIndex_def
  spec_encodeNullKeypoint_def spec_encodeKeypointPosition_def pixelsPerKeypoint_def
  MIN_KEYPOINT_SIZE_def G0_def U1_def img1_def tile_of_def
  signed_divide_int_def signed_modulo_int_def

text \<open>
  C10. A thread whose tile is not the one named by the \<open>tileIndex\<close> uniform returns
  the texel of the input texture \<open>encodedKeypoints\<close> at its own location.
\<close>

theorem other_tiles_unchanged:
  assumes "tileSize U \<noteq> 0"
    and "tile_of U thread \<noteq> tileIndex U"
  shows "main P U thread = Some (encodedKeypoints U thread)"
  using assms by (simp add: main_def tile_of_def Let_def)

theorem other_tiles_unchanged_witness:
  "tile_of (U1\<lparr>tileSize := 1\<rparr>) (1, 1) = 3 \<and>
   main (spec_prelude G0 0) (U1\<lparr>tileSize := 1\<rparr>) (1, 1) = Some (Vec4 7 7 7 7)"
  using other_tiles_unchanged [of "U1\<lparr>tileSize := 1\<rparr>" "(1, 1)" "spec_prelude G0 0"]
  by (simp add: tile_of_def U1_def)

text \<open>
  C2. In the image \<open>img1\<close> the only keypoint is the pixel (0, 0). The scan for \<open>q = 0\<close>
  finds it, but \<open>position\<close> is advanced before the loop condition is tested again, so the
  function returns the position (1, 0) of the next pixel to scan. The thread of pixel 0 of
  cell 0 writes the encoding of (1, 0), which is not the encoding of (0, 0).
\<close>

theorem encoder_writes_advanced_position:
  "findQthKeypoint img1 (2, 1) 0 = Some (True, (1, 0), Some (Vec4 1 0 0 0)) \<and>
   main (spec_prelude G0 0) U1 (0, 0) = Some (spec_encodeKeypointPosition G0 (1, 0)) \<and>
   spec_encodeKeypointPosition G0 (1, 0) = Vec4 8 0 0 0 \<and>
   spec_encodeKeypointPosition G0 (0, 0) = Vec4 0 0 0 0"
  by (simp add: encoder_eval)


subsection \<open>The scan for the q-th keypoint\<close>

lemma smod_nat: "0 < w \<Longrightarrow> int k smod int w = int (k mod w)"
  by (simp add: signed_modulo_int_def zmod_int sgn_if)

lemma sdiv_nat: "int k sdiv int w = int (k div w)"
  by (simp add: signed_divide_int_def zdiv_int sgn_if)

lemma row_below: "0 < w \<Longrightarrow> k div w < h \<longleftrightarrow> k < w * h" for k w h :: nat
  by (simp add: less_mult_imp_div_less div_less_iff_less_mult mult.commute)

lemma filter_skip:
  assumes "\<And>j. k \<le> j \<Longrightarrow> j < k' \<Longrightarrow> j < n \<Longrightarrow> \<not> P j" and "k \<le> k'"
  shows "filter P [k..<n] = filter P [k'..<n]"
proof (cases "k' \<le> n")
  case True
  have "[k..<n] = [k..<k'] @ [k'..<n]"
    using assms(2) True by (metis le_Suc_ex upt_add_eq_append)
  moreover have "filter P [k..<k'] = []"
    using assms(1) True by (auto simp: filter_empty_conv)
  ultimately show ?thesis by simp
next
  case False
  then have "filter P [k..<n] = []"
    using assms(1) by (auto simp: filter_empty_conv)
  with False show ?thesis by simp
qed


lemma while_exit:
  "\<not> (snd position < snd isz \<and> p \<noteq> q) \<Longrightarrow>
   findQthKeypoint_while img isz q i p position pixel = Some (p, position, pixel)"
  by (subst findQthKeypoint_while.simps) auto

lemma while_step:
  fixes w h k :: nat
  assumes "0 < w" "k < w * h" "p \<noteq> q"
  shows "findQthKeypoint_while img (int w, int h) q (int k) p (int (k mod w), int (k div w)) pixel =
         findQthKeypoint_while img (int w, int h) q
           (int (k + 1 + unat (chan_b (texel_at img w k))))
           (p + (if 0 < chan_r (texel_at img w k) then 1 else 0))
           (int ((k + 1 + unat (chan_b (texel_at img w k))) mod w),
            int ((k + 1 + unat (chan_b (texel_at img w k))) div w))
           (Some (texel_at img w k))"
proof -
  have "int k + 1 + uint (chan_b (texel_at img w k)) = int (k + 1 + unat (chan_b (texel_at img w k)))"
    by simp
  then show ?thesis
    using assms
    by (subst findQthKeypoint_while.simps)
       (simp add: Let_def row_below texel_at_def smod_nat sdiv_nat del: of_nat_add of_nat_Suc)
qed

lemma scanned_Cons:
  assumes "p + 1 < q" and "scanned img w q (p + 1) rest res"
  shows "scanned img w q p (k # rest) res"
proof -
  have n: "nat (q - p) = Suc (nat (q - (p + 1)))" "0 < nat (q - (p + 1))"
    using assms(1) by simp_all
  show ?thesis
    using assms(2) n(2) unfolding scanned_def n(1)
    by (auto split: option.splits simp: nth_Cons')
qed

lemma scan_from:
  fixes w h :: nat
  assumes w: "0 < w" and valid: "valid_skips img w h" and pq: "p < q"
  shows "scanned img w q p (filter (\<lambda>j. 0 < chan_r (texel_at img w j)) [k..<w * h])
           (findQthKeypoint_while img (int w, int h) q (int k) p
              (int (k mod w), int (k div w)) pixel)"
  using pq
proof (induction "w * h - k" arbitrary: k p pixel rule: less_induct)
  case less
  let ?kp = "\<lambda>j. 0 < chan_r (texel_at img w j)"
  show ?case
  proof (cases "k < w * h")
    case False
    then have "\<not> int (k div w) < int h"
      using w by (simp add: row_below)
    then have "findQthKeypoint_while img (int w, int h) q (int k) p
              (int (k mod w), int (k div w)) pixel = Some (p, (int (k mod w), int (k div w)), pixel)"
      by (intro while_exit) simp
    moreover have "filter ?kp [k..<w * h] = []"
      using False by simp
    ultimately show ?thesis
      using less.prems by (simp add: scanned_def)
  next
    case True
    define B where "B = unat (chan_b (texel_at img w k))"
    define k' where "k' = k + 1 + B"
    define p' where "p' = p + (if ?kp k then 1 else 0)"
    have step: "findQthKeypoint_while img (int w, int h) q (int k) p (int (k mod w), int (k div w)) pixel =
       findQthKeypoint_while img (int w, int h) q (int k') p' (int (k' mod w), int (k' div w))
         (Some (texel_at img w k))"
      using while_step [OF w True, of p q img pixel] less.prems by (simp add: k'_def p'_def B_def)
    have skip: "filter ?kp [k + 1..<w * h] = filter ?kp [k'..<w * h]"
    proof (rule filter_skip)
      fix j assume "k + 1 \<le> j" "j < k'" "j < w * h"
      then have "j \<in> set [k + 1..<k + 1 + unat (chan_b (texel_at img w k))]"
        by (auto simp: k'_def B_def)
      then have "chan_r (texel_at img w j) = 0"
        using valid True by (simp add: valid_skips_def)
      then show "\<not> ?kp j" by simp
    qed (simp add: k'_def)
    have rest: "filter ?kp [k..<w * h] = (if ?kp k then [k] else []) @ filter ?kp [k'..<w * h]"
      using True skip by (simp add: upt_conv_Cons)
    show ?thesis
    proof (cases "p' = q")
      case True
      then have kp: "?kp k" and q: "q = p + 1"
        using less.prems by (auto simp: p'_def split: if_splits)
      have exit: "findQthKeypoint_while img (int w, int h) q (int k') p' (int (k' mod w), int (k' div w))
         (Some (texel_at img w k)) = Some (p', (int (k' mod w), int (k' div w)), Some (texel_at img w k))"
        using True by (intro while_exit) simp
      then have "scanned img w q p (k # filter ?kp [k'..<w * h])
          (Some (p', (int (k' mod w), int (k' div w)), Some (texel_at img w k)))"
        using True q by (auto simp: scanned_def)
      then show ?thesis
        unfolding step rest using kp exit by simp
    next
      case False
      then have lt: "p' < q"
        using less.prems by (auto simp: p'_def split: if_splits)
      have IH: "scanned img w q p' (filter ?kp [k'..<w * h])
           (findQthKeypoint_while img (int w, int h) q (int k') p'
              (int (k' mod w), int (k' div w)) (Some (texel_at img w k)))"
        using True lt by (intro less.hyps) (simp_all add: k'_def)
      show ?thesis
      proof (cases "?kp k")
        case True
        then have p': "p' = p + 1" by (simp add: p'_def)
        have "scanned img w q p (k # filter ?kp [k'..<w * h])
           (findQthKeypoint_while img (int w, int h) q (int k') p'
              (int (k' mod w), int (k' div w)) (Some (texel_at img w k)))"
          using lt IH unfolding p' by (rule scanned_Cons)
        then show ?thesis
          unfolding step rest using True by simp
      next
        case False
        then have "p' = p" by (simp add: p'_def)
        then show ?thesis
          unfolding step rest using IH False by simp
      qed
    qed
  qed
qed

lemma findQthKeypoint_result:
  fixes w h :: nat
  assumes w: "0 < w" and valid: "valid_skips img w h"
  shows "\<exists>position pixel.
           findQthKeypoint img (int w, int h) (int c) =
             Some (c < length (keypoint_indices img w h), position, pixel) \<and>
           (c < length (keypoint_indices img w h) \<longrightarrow>
              pixel = Some (texel_at img w (keypoint_indices img w h ! c)) \<and>
              (\<exists>k'. position = (int (k' mod w), int (k' div w))))"
proof -
  have "scanned img w (int c) (- 1) (filter (\<lambda>j. 0 < chan_r (texel_at img w j)) [0..<w * h])
           (findQthKeypoint_while img (int w, int h) (int c) (int 0) (- 1)
              (int (0 mod w), int (0 div w)) None)"
    using w valid by (rule scan_from) simp
  then have s: "scanned img w (int c) (- 1) (keypoint_indices img w h)
           (findQthKeypoint_while img (int w, int h) (int c) 0 (- 1) (0, 0) None)"
    by (simp add: keypoint_indices_def)
  have n: "nat (int c - (- 1)) = Suc c" by simp
  show ?thesis
    using s unfolding scanned_def findQthKeypoint_def n
    by (auto split: option.splits if_splits simp: Suc_le_eq)
qed


lemma pixelsPerKeypoint_ge2: "2 \<le> pixelsPerKeypoint ds es"
  by (simp add: pixelsPerKeypoint_def MIN_KEYPOINT_SIZE_def)

lemma address_of_thread:
  "spec_findKeypointAddress (int (r mod e), int (r div e)) (int e) (int ds) (int es) =
     KeypointAddress (int (r div pixelsPerKeypoint ds es * pixelsPerKeypoint ds es))
                     (int (r mod pixelsPerKeypoint ds es))"
proof -
  have "int (r div e) * int e + int (r mod e) = int r"
    by (metis of_nat_add of_nat_mult div_mult_mod_eq)
  moreover have "0 < pixelsPerKeypoint ds es"
    using pixelsPerKeypoint_ge2 [of ds es] by simp
  ultimately show ?thesis
    by (simp add: spec_findKeypointAddress_def Let_def sdiv_nat smod_nat)
qed

lemma index_of_address:
  "spec_findKeypointIndex (KeypointAddress (int c * int (pixelsPerKeypoint ds es)) ofs) (int ds) (int es) =
     int c"
proof -
  have "0 < pixelsPerKeypoint ds es"
    using pixelsPerKeypoint_ge2 [of ds es] by simp
  then have "int (c * pixelsPerKeypoint ds es) sdiv int (pixelsPerKeypoint ds es) = int c"
    unfolding sdiv_nat by simp
  then show ?thesis
    by (simp add: spec_findKeypointIndex_def)
qed

lemma encode_texture_cases:
  fixes r e ds es w h :: nat and U :: uniforms and g :: globals and flags :: byte
  assumes su: "encoder_setup U w h e ds es"
  defines "c \<equiv> r div pixelsPerKeypoint ds es"
    and "ofs \<equiv> r mod pixelsPerKeypoint ds es"
    and "ks \<equiv> keypoint_indices (image_tex U) w h"
    and "tex \<equiv> encode_texture (spec_prelude g flags) U (int (r mod e), int (r div e))"
  shows "1 < ofs \<Longrightarrow> tex = Some (Vec4 0 0 0 0)"
    and "ofs \<le> 1 \<Longrightarrow> \<not> c < length ks \<Longrightarrow> tex = Some (Vec4 0xFF 0xFF 0xFF 0xFF)"
    and "ofs = 1 \<Longrightarrow> c < length ks \<Longrightarrow>
         tex = Some (Vec4 (chan_a (texel_at (image_tex U) w (ks ! c))) 0
                          (chan_r (texel_at (image_tex U) w (ks ! c))) flags)"
    and "ofs = 0 \<Longrightarrow> c < length ks \<Longrightarrow>
         \<exists>k'. tex = Some (spec_encodeKeypointPosition g (int (k' mod w), int (k' div w)))"
proof -
  let ?U = "U\<lparr>tileIndex := tile_of U (int (r mod e), int (r div e))\<rparr>"
  have U: "imageSize U = (int w, int h)" "encoderLength U = int e" "descriptorSize U = int ds"
      "extraSize U = int es" "tileSize U \<noteq> 0" "0 < w" "valid_skips (image_tex U) w h"
    using su by (simp_all add: encoder_setup_def)
  obtain position pixel where
    f: "findQthKeypoint (image_tex U) (int w, int h) (int c) = Some (c < length ks, position, pixel)"
    and found: "c < length ks \<Longrightarrow> pixel = Some (texel_at (image_tex U) w (ks ! c)) \<and>
              (\<exists>k'. position = (int (k' mod w), int (k' div w)))"
    using findQthKeypoint_result [OF U(6,7), of c] unfolding ks_def by blast
  have m: "tex =
     (if 1 < ofs then Some (Vec4 0 0 0 0)
      else if \<not> c < length ks then Some (Vec4 0xFF 0xFF 0xFF 0xFF)
      else if ofs = 1 then
        (case pixel of None \<Rightarrow> None
         | Some px \<Rightarrow> Some (Vec4 (chan_a px) 0 (chan_r px) flags))
      else Some (spec_encodeKeypointPosition g position))"
    unfolding tex_def encode_texture_def main_def
    using U(5) f
    by (simp add: Let_def U(1-4) spec_prelude_def address_of_thread index_of_address
        c_def [symmetric] ofs_def [symmetric] tile_of_def spec_encodeNullKeypoint_def
        cong: option.case_cong)
  show "1 < ofs \<Longrightarrow> tex = Some (Vec4 0 0 0 0)"
    by (simp add: m)
  show "ofs \<le> 1 \<Longrightarrow> \<not> c < length ks \<Longrightarrow> tex = Some (Vec4 0xFF 0xFF 0xFF 0xFF)"
    by (simp add: m)
  show "ofs = 1 \<Longrightarrow> c < length ks \<Longrightarrow>
         tex = Some (Vec4 (chan_a (texel_at (image_tex U) w (ks ! c))) 0
                          (chan_r (texel_at (image_tex U) w (ks ! c))) flags)"
    using found by (simp add: m)
  show "ofs = 0 \<Longrightarrow> c < length ks \<Longrightarrow>
         \<exists>k'. tex = Some (spec_encodeKeypointPosition g (int (k' mod w), int (k' div w)))"
    using found by (auto simp: m)
qed

subsection \<open>Encoding a sparse image and decoding it\<close>

lemma those_map_Some:
  assumes "\<And>x. x \<in> set xs \<Longrightarrow> f x \<noteq> None"
  shows "those (map f xs) = Some (map (\<lambda>x. the (f x)) xs)"
  using assms by (induction xs) (auto split: option.splits)

lemma concat_blocks:
  assumes "\<And>x. length (f x) = m"
  shows "length (concat (map f [0..<n])) = m * n"
    and "r < n \<Longrightarrow> ch < m \<Longrightarrow> concat (map f [0..<n]) ! (m * r + ch) = f r ! ch"
proof -
  show len: "length (concat (map f [0..<n])) = m * n" for n
    using assms by (induction n) simp_all
  show "r < n \<Longrightarrow> ch < m \<Longrightarrow> concat (map f [0..<n]) ! (m * r + ch) = f r ! ch"
  proof (induction n)
    case 0
    then show ?case by simp
  next
    case (Suc n)
    show ?case
    proof (cases "r < n")
      case True
      then have "m * Suc r \<le> m * n"
        by (intro mult_le_mono2) simp
      then have "m * r + ch < m * n"
        using Suc.prems(2) by simp
      then show ?thesis
        using Suc True by (simp add: nth_append len)
    next
      case False
      then have "r = n" using Suc.prems(1) by simp
      then show ?thesis
        using Suc.prems(2) by (simp add: nth_append len)
    qed
  qed
qed

lemma concat_singletons:
  assumes "\<And>c. c < n \<Longrightarrow> \<exists>k. F c = [k] \<and> P c k"
  shows "length (concat (map F [0..<n])) = n \<and> (\<forall>c<n. P c (concat (map F [0..<n]) ! c))"
  using assms
proof (induction n)
  case 0
  then show ?case by simp
next
  case (Suc n)
  then have IH: "length (concat (map F [0..<n])) = n" "\<forall>c<n. P c (concat (map F [0..<n]) ! c)"
    by simp_all
  obtain k where k: "F n = [k]" "P n k"
    using Suc.prems [of n] by auto
  show ?case
    using IH k by (auto simp: nth_append less_Suc_eq)
qed

lemma byte_of_int_255: "(word_of_int k :: byte) = 255 \<longleftrightarrow> k mod 256 = 255"
proof -
  have "uint (word_of_int k :: byte) = k mod 256"
    by (simp add: uint_word_of_int)
  then show ?thesis
    using word_uint_eq_iff [of "word_of_int k :: byte" 255] by simp
qed

lemma position_not_null:
  assumes "0 \<le> xraw" "xraw < 65535"
  shows "\<not> ((word_of_int xraw :: byte) = 255 \<and> (word_of_int (xraw div 256) :: byte) = 255)"
proof
  assume "(word_of_int xraw :: byte) = 255 \<and> (word_of_int (xraw div 256) :: byte) = 255"
  then have a: "xraw mod 256 = 255" and b: "(xraw div 256) mod 256 = 255"
    by (simp_all add: byte_of_int_255)
  have "xraw div 256 < 256" using assms by simp
  moreover have "0 \<le> xraw div 256" using assms by simp
  ultimately have "xraw div 256 = 255" using b by simp
  moreover have "xraw = 256 * (xraw div 256) + xraw mod 256" by simp
  ultimately have "xraw = 255 * 256 + 255" using a by simp
  with assms show False by simp
qed

lemma cell_header:
  assumes "\<not> null_cell pixels i"
    and "elem pixels (i + 4) = Some lodb" and "elem pixels (i + 5) = Some rotb"
    and "elem pixels (i + 6) = Some slo" and "elem pixels (i + 7) = Some shi"
    and "slo \<noteq> 0" and "i + 8 + es + ds \<le> length pixels"
  shows "\<exists>x y. cell g pixels ds es i =
           Push (SpeedyKeypoint x y (lod_of_byte g lodb)
                   (Some ((2 * real (unat rotb) - 255) * (Math_PI / 255)))
                   (256 * uint shi + uint slo)
                   (take ds (drop (i + 8 + es) pixels)) (take es (drop (i + 8) pixels)))"
proof -
  have nb: "\<not> (u16le pixels (i + 1) i \<ge> 0xFFFF \<and> u16le pixels (i + 3) (i + 2) \<ge> 0xFFFF)"
    using assms(1) by (auto simp: u16le_sentinel null_cell_def)
  have score: "u16le pixels (i + 7) (i + 6) = 256 * uint shi + uint slo"
    using assms(4,5) by (simp add: u16le_value byteval_def)
  have sub: "subarray pixels (8 + i) (8 + i + es) = take es (drop (i + 8) pixels)"
      "subarray pixels (8 + i + es) (8 + i + es + ds) = take ds (drop (i + 8 + es) pixels)"
    by (simp_all add: subarray_take_drop add.commute add.left_commute)
  have len: "\<not> (length (take ds (drop (i + 8 + es) pixels)) < ds \<or>
               length (take es (drop (i + 8) pixels)) < es)"
    using assms(7) by simp
  show ?thesis
    unfolding cell_def Let_def sub score
    using nb assms(2,3,4,6) len
    by (simp add: lod_of_byte_def)
qed

lemma divmod_block:
  fixes c p :: nat
  assumes "ofs < p"
  shows "(c * p + ofs) mod p = ofs" and "(c * p + ofs) div p = c"
  using assms by simp_all

lemma payload_fits: "8 + es + ds \<le> bytesPerKeypoint ds es"
  by (simp add: bytesPerKeypoint_def pixelsPerKeypoint_def MIN_KEYPOINT_SIZE_def)

lemma zero_slice:
  assumes "\<And>j. a \<le> j \<Longrightarrow> j < a + n \<Longrightarrow> xs ! j = (0::byte)" and "a + n \<le> length xs"
  shows "take n (drop a xs) = replicate n 0"
  using assms by (intro nth_equalityI) simp_all


lemma texel_defined:
  fixes r e ds es w h :: nat
  assumes "encoder_setup U w h e ds es"
  shows "encode_texture (spec_prelude g flags) U (int (r mod e), int (r div e)) \<noteq> None"
proof -
  let ?ofs = "r mod pixelsPerKeypoint ds es"
  let ?c = "r div pixelsPerKeypoint ds es"
  let ?K = "length (keypoint_indices (image_tex U) w h)"
  consider "1 < ?ofs" | "?ofs \<le> 1" "\<not> ?c < ?K" | "?ofs = 1" "?c < ?K" | "?ofs = 0" "?c < ?K"
    by linarith
  then show ?thesis
  proof cases
    case 1
    then show ?thesis using encode_texture_cases(1) [OF assms, where r = r and g = g and flags = flags] by simp
  next
    case 2
    then show ?thesis using encode_texture_cases(2) [OF assms, where r = r and g = g and flags = flags] by simp
  next
    case 3
    then show ?thesis using encode_texture_cases(3) [OF assms, where r = r and g = g and flags = flags] by simp
  next
    case 4
    then show ?thesis using encode_texture_cases(4) [OF assms, where r = r and g = g and flags = flags] by auto
  qed
qed

text \<open>
  C1, amended. A sparse image of positive width with valid skip offsets and \<open>K\<close>
  keypoints is encoded into a texture that has room for \<open>K\<close> cells (it may be
  full: \<open>K * pixelsPerKeypoint \<le> encoderLength\<^sup>2\<close>), with positions that fit
  16-bit fixed point. Decoding the bytes read back yields
  exactly \<open>K\<close> keypoints, in the row-major order of the keypoints of the image. The
  \<open>n\<close>-th has the score byte \<open>R\<close> of the \<open>n\<close>-th keypoint texel (the flags byte
  is read as the high byte of the score), the level of detail decoded from its \<open>A\<close>
  byte, the rotation decoded from the byte 0, and zero descriptor and extra bytes. Nothing
  is stated about the decoded positions.
\<close>

theorem encode_then_decode_keypoints:
  fixes w h e ds es :: nat
  assumes su: "encoder_setup U w h e ds es"
    and room: "length (keypoint_indices (image_tex U) w h) * pixelsPerKeypoint ds es \<le> e * e"
    and fx: "0 \<le> FIX_RESOLUTION g" "real (w - 1) * FIX_RESOLUTION g < 65535"
  shows "\<exists>kps. encode_then_decode g flags U = Some kps \<and>
           length kps = length (keypoint_indices (image_tex U) w h) \<and>
           (\<forall>n < length (keypoint_indices (image_tex U) w h).
              kp_score (kps ! n) =
                256 * uint flags +
                uint (chan_r (texel_at (image_tex U) w (keypoint_indices (image_tex U) w h ! n))) \<and>
              kp_lod (kps ! n) =
                lod_of_byte g (chan_a (texel_at (image_tex U) w (keypoint_indices (image_tex U) w h ! n))) \<and>
              kp_rotation (kps ! n) = Some (- Math_PI) \<and>
              kp_descriptor (kps ! n) = replicate ds 0 \<and>
              kp_extra (kps ! n) = replicate es 0)"
proof -
  define ppk where "ppk = pixelsPerKeypoint ds es"
  define bpk where "bpk = bytesPerKeypoint ds es"
  define ks where "ks = keypoint_indices (image_tex U) w h"
  define K where "K = length ks"
  define n where "n = e * e"
  define tex where "tex = encode_texture (spec_prelude g flags) U"
  define T where "T = (\<lambda>r. the (tex (int (r mod e), int (r div e))))"
  define bytes where "bytes = concat (map (\<lambda>r. texel_bytes (T r)) [0..<n])"
  define tx where "tx = (\<lambda>c. texel_at (image_tex U) w (ks ! c))"
  have U: "imageSize U = (int w, int h)" "encoderLength U = int e" "descriptorSize U = int ds"
      "extraSize U = int es" "0 < w"
    using su by (simp_all add: encoder_setup_def)
  have ppk2: "2 \<le> ppk" by (simp add: ppk_def pixelsPerKeypoint_ge2)
  have bpk: "bpk = 4 * ppk" by (simp add: bpk_def ppk_def bytesPerKeypoint_def)
  have room': "K * ppk \<le> n"
    using room by (simp add: K_def ks_def ppk_def n_def)

  \<comment> \<open>the texture, texel by texel\<close>
  have Tsome: "tex (int (r mod e), int (r div e)) = Some (T r)" for r
    using texel_defined [OF su, of g flags r] by (auto simp: T_def tex_def)
  have Tzero: "T r = Vec4 0 0 0 0" if "1 < r mod ppk" for r
    using encode_texture_cases(1) [OF su, where r = r and g = g and flags = flags] that Tsome [of r]
    by (simp add: ppk_def tex_def)
  have Tnull: "T r = Vec4 0xFF 0xFF 0xFF 0xFF" if "r mod ppk \<le> 1" "\<not> r div ppk < K" for r
    using encode_texture_cases(2) [OF su, where r = r and g = g and flags = flags] that Tsome [of r]
    by (simp add: ppk_def tex_def K_def ks_def)
  have Thead: "T r = Vec4 (chan_a (tx (r div ppk))) 0 (chan_r (tx (r div ppk))) flags"
    if "r mod ppk = 1" "r div ppk < K" for r
    using encode_texture_cases(3) [OF su, where r = r and g = g and flags = flags] that Tsome [of r]
    by (simp add: ppk_def tex_def K_def ks_def tx_def)
  have Tpos: "\<exists>k'. T r = spec_encodeKeypointPosition g (int (k' mod w), int (k' div w))"
    if "r mod ppk = 0" "r div ppk < K" for r
    using encode_texture_cases(4) [OF su, where r = r and g = g and flags = flags] that Tsome [of r]
    by (simp add: ppk_def tex_def K_def ks_def)

  \<comment> \<open>the bytes read back\<close>
  have "those (map (\<lambda>r. tex (int (r mod e), int (r div e))) [0..<n]) = Some (map T [0..<n])"
    using those_map_Some [of "[0..<n]" "\<lambda>r. tex (int (r mod e), int (r div e))"]
    by (simp add: Tsome)
  then have rp: "readPixels e tex = Some bytes"
    by (simp add: readPixels_def bytes_def n_def map_concat comp_def)
  have blen: "length bytes = 4 * n"
    unfolding bytes_def by (rule concat_blocks(1)) (simp add: texel_bytes_def)
  have bnth: "bytes ! (4 * r + ch) = texel_bytes (T r) ! ch" if "r < n" "ch < 4" for r ch
    unfolding bytes_def using that by (intro concat_blocks(2)) (simp_all add: texel_bytes_def)
  have belem: "elem bytes (4 * r + ch) = Some (texel_bytes (T r) ! ch)" if "r < n" "ch < 4" for r ch
    using that bnth [OF that] blen by (simp add: elem_def)
  have dec: "encode_then_decode g flags U = Some (decode g bytes ds es e)"
    using rp by (simp add: encode_then_decode_def U tex_def)

  \<comment> \<open>the end of the list: the end-of-list mark, or the end of a full texture\<close>
  have Kmod: "(K * ppk) mod ppk = 0" "(K * ppk) div ppk = K"
    using ppk2 by simp_all
  have brk: "cell g bytes ds es (K * bpk) = Break"
    if "K * bpk < min (length bytes) (e * e * ppk * 4)"
  proof -
    have less: "K * ppk < n"
      using that blen by (simp add: bpk)
    have "T (K * ppk) = Vec4 0xFF 0xFF 0xFF 0xFF"
      using Kmod by (intro Tnull) simp_all
    then have "null_cell bytes (4 * (K * ppk))"
      using belem [OF less, of 0] belem [OF less, of 1] belem [OF less, of 2]
        belem [OF less, of 3]
      by (simp add: null_cell_def texel_bytes_def)
    also have "4 * (K * ppk) = K * bpk"
      by (simp add: bpk)
    finally show ?thesis
      by (simp only: cell_Break_iff)
  qed
  have sz: "c * bpk < min (length bytes) (e * e * ppk * 4)" if "c < K" for c
  proof -
    have "Suc c * ppk \<le> K * ppk" using that by (intro mult_le_mono1) simp
    then have "c * ppk < n" using room' ppk2 by simp
    moreover have "n \<le> n * ppk" using ppk2 by simp
    ultimately show ?thesis
      using blen by (simp add: bpk n_def)
  qed

  \<comment> \<open>the cells of the keypoints\<close>
  have kcell: "\<exists>k. emitted (cell g bytes ds es (c * bpk)) = [k] \<and>
       (kp_score k = 256 * uint flags + uint (chan_r (tx c)) \<and>
        kp_lod k = lod_of_byte g (chan_a (tx c)) \<and>
        kp_rotation k = Some (- Math_PI) \<and>
        kp_descriptor k = replicate ds 0 \<and> kp_extra k = replicate es 0)"
    if c: "c < K" for c
  proof -
    define i where "i = c * bpk"
    have i: "i = 4 * (c * ppk)" by (simp add: i_def bpk)
    have "Suc c * ppk \<le> K * ppk" using c by (intro mult_le_mono1) simp
    then have inside: "c * ppk + ppk \<le> n" using room' by simp
    then have r0: "c * ppk < n" and r1: "c * ppk + 1 < n"
      using ppk2 by simp_all
    have m0: "(c * ppk) mod ppk = 0" "(c * ppk) div ppk = c"
      using ppk2 by simp_all
    have m1: "(c * ppk + 1) mod ppk = 1" "(c * ppk + 1) div ppk = c"
      using divmod_block [of 1 ppk c] ppk2 by simp_all
    \<comment> \<open>pixel 0: not the end-of-list mark\<close>
    obtain k' where pos: "T (c * ppk) = spec_encodeKeypointPosition g (int (k' mod w), int (k' div w))"
      using Tpos [of "c * ppk"] m0 c by auto
    define xraw where "xraw = \<lfloor>real_of_int (int (k' mod w)) * FIX_RESOLUTION g\<rfloor>"
    have "k' mod w < w" using U(5) by simp
    then have "k' mod w \<le> w - 1" by linarith
    then have "real (k' mod w) * FIX_RESOLUTION g \<le> real (w - 1) * FIX_RESOLUTION g"
      using fx(1) by (intro mult_right_mono) simp_all
    then have "real (k' mod w) * FIX_RESOLUTION g < 65535"
      using fx(2) by simp
    then have xhi: "xraw < 65535"
      by (simp add: xraw_def floor_less_iff)
    have xlo: "0 \<le> xraw"
      using fx(1) by (simp add: xraw_def)
    have "elem bytes i = Some (word_of_int xraw)" "elem bytes (i + 1) = Some (word_of_int (xraw div 256))"
      using belem [OF r0, of 0] belem [OF r0, of 1]
      by (simp_all add: i pos spec_encodeKeypointPosition_def Let_def texel_bytes_def xraw_def)
    then have notnull: "\<not> null_cell bytes i"
      using position_not_null [OF xlo xhi] by (auto simp: null_cell_def)
    \<comment> \<open>pixel 1: scale, rotation, score, flags\<close>
    have head: "T (c * ppk + 1) = Vec4 (chan_a (tx c)) 0 (chan_r (tx c)) flags"
      using Thead [of "c * ppk + 1"] m1 c by simp
    have i4: "i + 4 = 4 * (c * ppk + 1) + 0" "i + 5 = 4 * (c * ppk + 1) + 1"
      "i + 6 = 4 * (c * ppk + 1) + 2" "i + 7 = 4 * (c * ppk + 1) + 3"
      by (simp_all add: i)
    have h4: "elem bytes (i + 4) = Some (chan_a (tx c))" and h5: "elem bytes (i + 5) = Some 0"
      and h6: "elem bytes (i + 6) = Some (chan_r (tx c))" and h7: "elem bytes (i + 7) = Some flags"
      unfolding i4
      using belem [OF r1, of 0] belem [OF r1, of 1] belem [OF r1, of 2] belem [OF r1, of 3] head
      by (simp_all add: texel_bytes_def)
    have "ks ! c \<in> set ks" using c by (simp add: K_def)
    then have score: "chan_r (tx c) \<noteq> 0"
      by (auto simp: ks_def keypoint_indices_def tx_def)
    \<comment> \<open>the payload: zeros\<close>
    have whole: "i + bpk \<le> length bytes"
      using inside by (simp add: i bpk blen)
    have fits: "i + 8 + es + ds \<le> length bytes"
      using whole payload_fits [of es ds] by (simp add: bpk_def)
    have zero: "bytes ! j = 0" if "i + 8 \<le> j" "j < i + bpk" for j
    proof -
      define r where "r = j div 4"
      have j: "j = 4 * r + j mod 4" by (simp add: r_def)
      have rlo: "c * ppk + 2 \<le> r" using that(1) by (simp add: r_def i)
      have rhi: "r < c * ppk + ppk" using that(2) by (simp add: r_def i bpk)
      then have rn: "r < n" using inside by simp
      have "r = c * ppk + (r - c * ppk)" using rlo by simp
      moreover have "r - c * ppk < ppk" using rhi rlo by simp
      ultimately have "r mod ppk = r - c * ppk"
        using divmod_block(1) [of "r - c * ppk" ppk c] by simp
      then have "1 < r mod ppk" using rlo by simp
      then have "T r = Vec4 0 0 0 0" by (rule Tzero)
      then have "bytes ! (4 * r + j mod 4) = 0"
        using bnth [OF rn, of "j mod 4"]
        by (cases "j mod 4 = 0"; cases "j mod 4 = 1"; cases "j mod 4 = 2"; cases "j mod 4 = 3")
           (simp_all add: texel_bytes_def, presburger?)
      with j show ?thesis by simp
    qed
    have extra: "take es (drop (i + 8) bytes) = replicate es 0"
    proof (rule zero_slice)
      fix j assume "i + 8 \<le> j" "j < i + 8 + es"
      then show "bytes ! j = 0"
        using payload_fits [of es ds] by (intro zero) (simp_all add: bpk_def)
    qed (use fits in simp)
    have descr: "take ds (drop (i + 8 + es) bytes) = replicate ds 0"
    proof (rule zero_slice)
      fix j assume "i + 8 + es \<le> j" "j < i + 8 + es + ds"
      then show "bytes ! j = 0"
        using payload_fits [of es ds] by (intro zero) (simp_all add: bpk_def)
    qed (use fits in simp)
    obtain x y where "cell g bytes ds es i =
           Push (SpeedyKeypoint x y (lod_of_byte g (chan_a (tx c)))
                   (Some ((2 * real (unat (0 :: byte)) - 255) * (Math_PI / 255)))
                   (256 * uint flags + uint (chan_r (tx c)))
                   (take ds (drop (i + 8 + es) bytes)) (take es (drop (i + 8) bytes)))"
      using cell_header [OF notnull h4 h5 h6 h7 score fits, of g] by blast
    then show ?thesis
      by (simp add: i_def [symmetric] emitted_def extra descr)
  qed
  have nobrk: "cell g bytes ds es (c * bpk) \<noteq> Break" if "c < K" for c
    using kcell [OF that] by (auto simp: emitted_def)
  have "decode g bytes ds es e =
        concat (map (\<lambda>c. emitted (cell g bytes ds es (c * bpk))) [0..<K])"
    unfolding bpk_def
    using sz brk nobrk by (intro decode_to_stop) (simp_all add: bpk_def ppk_def)
  moreover have "length (concat (map (\<lambda>c. emitted (cell g bytes ds es (c * bpk))) [0..<K])) = K \<and>
      (\<forall>c<K. (\<lambda>c k. kp_score k = 256 * uint flags + uint (chan_r (tx c)) \<and>
        kp_lod k = lod_of_byte g (chan_a (tx c)) \<and>
        kp_rotation k = Some (- Math_PI) \<and>
        kp_descriptor k = replicate ds 0 \<and> kp_extra k = replicate es 0) c
          (concat (map (\<lambda>c. emitted (cell g bytes ds es (c * bpk))) [0..<K]) ! c))"
    using kcell by (rule concat_singletons)
  ultimately show ?thesis
    using dec by (simp add: K_def ks_def tx_def)
qed

text \<open>
  Two runs. The image \<open>img1\<close> with its one keypoint, in a 2 x 2 texture: the cell of
  the keypoint is followed by the end-of-list mark. The image \<open>img2\<close> with its three
  keypoints, in a 3 x 3 texture that the three cells fill: the keypoints come back in
  their order, with the scores 1, 2, 3, the levels of detail of the scale bytes 5, 6, 7,
  and two zero bytes each of descriptor and extra data.
\<close>

theorem encode_then_decode_keypoints_witness:
  "keypoint_indices (image_tex U1) 2 1 = [0] \<and>
   encode_then_decode G0 0 U1 = Some [SpeedyKeypoint 1 0 0 (Some (- Math_PI)) 1 [] []] \<and>
   keypoint_indices (image_tex U2) 3 2 = [0, 2, 3] \<and>
   encode_then_decode G0 0 U2 =
     Some [SpeedyKeypoint 2 0 (8 / 51) (Some (- Math_PI)) 1 [0, 0] [0, 0],
           SpeedyKeypoint 0 1 (16 / 85) (Some (- Math_PI)) 2 [0, 0] [0, 0],
           SpeedyKeypoint 1 1 (56 / 255) (Some (- Math_PI)) 3 [0, 0] [0, 0]]"
proof -
  have f: "0 \<le> FIX_RESOLUTION G0" "real (2 - 1) * FIX_RESOLUTION G0 < 65535"
      "real (3 - 1) * FIX_RESOLUTION G0 < 65535"
    by (simp_all add: G0_def)
  \<comment> \<open>one keypoint, followed by the end-of-list mark\<close>
  have s1: "encoder_setup U1 2 1 2 0 0"
    by (simp add: encoder_setup_def U1_def valid_skips_def img1_def texel_at_def upt_conv_Cons)
  have k1: "keypoint_indices (image_tex U1) 2 1 = [0]"
    by (simp add: keypoint_indices_def U1_def img1_def texel_at_def upt_conv_Cons)
  have r1: "length (keypoint_indices (image_tex U1) 2 1) * pixelsPerKeypoint 0 0 \<le> 2 * 2"
    using k1 by (simp add: pixelsPerKeypoint_def MIN_KEYPOINT_SIZE_def)
  have b1: "readPixels 2 (encode_texture (spec_prelude G0 0) U1) =
      Some [8, 0, 0, 0, 0, 0, 1, 0, 255, 255, 255, 255, 255, 255, 255, 255]"
    by (simp add: readPixels_def encode_texture_def encoder_eval texel_bytes_def upt_conv_Cons)
  have d1: "decode G0 [8, 0, 0, 0, 0, 0, 1, 0, 255, 255, 255, 255, 255, 255, 255, 255] 0 0 2 =
      [SpeedyKeypoint 1 0 0 (Some (- Math_PI)) 1 [] []]"
    by (simp add: decode_eval)
  have e1: "encode_then_decode G0 0 U1 = Some [SpeedyKeypoint 1 0 0 (Some (- Math_PI)) 1 [] []]"
    using b1 d1 by (simp add: encode_then_decode_def U1_def)
  \<comment> \<open>three keypoints with payload, in a full texture\<close>
  have s2: "encoder_setup U2 3 2 3 2 2"
    by (simp add: encoder_setup_def U2_def valid_skips_def img2_def texel_at_def upt_conv_Cons)
  have k2: "keypoint_indices (image_tex U2) 3 2 = [0, 2, 3]"
    by (simp add: keypoint_indices_def U2_def img2_def texel_at_def upt_conv_Cons)
  have r2: "length (keypoint_indices (image_tex U2) 3 2) * pixelsPerKeypoint 2 2 \<le> 3 * 3"
    using k2 by (simp add: pixelsPerKeypoint_def MIN_KEYPOINT_SIZE_def)
  have b2: "readPixels 3 (encode_texture (spec_prelude G0 0) U2) =
      Some [16, 0, 0, 0, 5, 0, 1, 0, 0, 0, 0, 0,
            0, 0, 8, 0, 6, 0, 2, 0, 0, 0, 0, 0,
            8, 0, 8, 0, 7, 0, 3, 0, 0, 0, 0, 0]"
    by (simp add: readPixels_def encode_texture_def encoder_eval U2_def img2_def texel_bytes_def
        upt_conv_Cons)
  have d2: "decode G0 [16, 0, 0, 0, 5, 0, 1, 0, 0, 0, 0, 0,
                       0, 0, 8, 0, 6, 0, 2, 0, 0, 0, 0, 0,
                       8, 0, 8, 0, 7, 0, 3, 0, 0, 0, 0, 0] 2 2 3 =
      [SpeedyKeypoint 2 0 (8 / 51) (Some (- Math_PI)) 1 [0, 0] [0, 0],
       SpeedyKeypoint 0 1 (16 / 85) (Some (- Math_PI)) 2 [0, 0] [0, 0],
       SpeedyKeypoint 1 1 (56 / 255) (Some (- Math_PI)) 3 [0, 0] [0, 0]]"
    by (simp add: decode_eval)
  have e2: "encode_then_decode G0 0 U2 =
     Some [SpeedyKeypoint 2 0 (8 / 51) (Some (- Math_PI)) 1 [0, 0] [0, 0],
           SpeedyKeypoint 0 1 (16 / 85) (Some (- Math_PI)) 2 [0, 0] [0, 0],
           SpeedyKeypoint 1 1 (56 / 255) (Some (- Math_PI)) 3 [0, 0] [0, 0]]"
    using b2 d2 by (simp add: encode_then_decode_def U2_def)
  show ?thesis
    using encode_then_decode_keypoints [OF s1 r1 f(1,2), of 0]
      encode_then_decode_keypoints [OF s2 r2 f(1,3), of 0] k1 e1 k2 e2
    by simp
qed

text \<open>
  C1. The image \<open>img1\<close> holds one keypoint, at position (0, 0), with score 1. Encoded
  and decoded, the list holds one keypoint at position (1, 0): the position is off by a
  whole pixel, not by \<open>1 / FIX_RESOLUTION\<close>. Its rotation is decoded from the byte 0
  that the kernel always writes, whatever the orientation of the keypoint was: an
  orientation of 0 radians comes back as \<open>- Math_PI\<close>, which is not within one step
  \<open>2 * Math_PI / 255\<close> of the orientation byte.
\<close>

theorem roundtrip_counterexample:
  "keypoint_indices img1 2 1 = [0] \<and>
   encode_then_decode G0 0 U1 = Some [SpeedyKeypoint 1 0 0 (Some (- Math_PI)) 1 [] []] \<and>
   \<not> \<bar>kp_x (SpeedyKeypoint 1 0 0 (Some (- Math_PI)) 1 [] []) - 0\<bar> \<le> 1 / FIX_RESOLUTION G0 \<and>
   \<not> \<bar>- Math_PI - 0\<bar> \<le> 2 * Math_PI / 255"
proof -
  have b: "readPixels 2 (encode_texture (spec_prelude G0 0) U1) =
      Some [8, 0, 0, 0, 0, 0, 1, 0, 255, 255, 255, 255, 255, 255, 255, 255]"
    by (simp add: readPixels_def encode_texture_def encoder_eval texel_bytes_def upt_conv_Cons)
  have d: "decode G0 [8, 0, 0, 0, 0, 0, 1, 0, 255, 255, 255, 255, 255, 255, 255, 255] 0 0 2 =
      [SpeedyKeypoint 1 0 0 (Some (- Math_PI)) 1 [] []]"
    by (simp add: decode_eval)
  have "encode_then_decode G0 0 U1 = Some [SpeedyKeypoint 1 0 0 (Some (- Math_PI)) 1 [] []]"
    using b d by (simp add: encode_then_decode_def U1_def)
  moreover have "keypoint_indices img1 2 1 = [0]"
    by (simp add: keypoint_indices_def img1_def texel_at_def upt_conv_Cons)
  ultimately show ?thesis
    by (simp add: G0_def Math_PI_def)
qed

section \<open>Properties of the matrix routines\<close>

subsection \<open>Iteration\<close>

lemma for2_from_fold:
  "x = j * d \<Longrightarrow> y = j * e \<Longrightarrow>
   for2_from n d e j x y body s = fold (\<lambda>k. body k (k * d) (k * e)) [j..<n] s"
proof (induction n d e j x y body s rule: for2_from.induct)
  case (1 n d e j x y body s)
  show ?case
  proof (cases "j < n")
    case True
    then have "for2_from n d e j x y body s =
               for2_from n d e (j + 1) (x + d) (y + e) body (body j x y s)"
      by (subst for2_from.simps) simp
    also have "\<dots> = fold (\<lambda>k. body k (k * d) (k * e)) [j + 1..<n] (body j x y s)"
      using True "1.prems" by (intro "1.IH") simp_all
    finally show ?thesis
      using True "1.prems" by (simp add: upt_conv_Cons)
  next
    case False
    then show ?thesis by (subst for2_from.simps) simp
  qed
qed

lemma for2_fold: "for2 n d e body s = fold (\<lambda>j. body j (j * d) (j * e)) [0..<n] s"
  by (simp add: for2_def for2_from_fold)

lemma for1_fold: "for1 n d body s = fold (\<lambda>j. body j (j * d)) [0..<n] s"
  by (simp add: for1_def for2_from_fold)

lemma rd_update: "rd (xs[i := v]) p = (if p = i \<and> p < length xs then v else rd xs p)"
  by (simp add: rd_def)

lemma length_fold_keep:
  assumes "\<And>j xs. length (body j xs) = length xs"
  shows "length (fold body js xs) = length xs"
  using assms by (induction js arbitrary: xs) simp_all

lemma fold_pointwise:
  assumes len: "\<And>j xs. length (body j xs) = length xs"
    and pt: "\<And>j xs. j < n \<Longrightarrow> length xs = L \<Longrightarrow> rd (body j xs) p = G j (rd xs p)"
    and L: "length xs = L"
  shows "rd (fold body [0..<n] xs) p = fold G [0..<n] (rd xs p)"
  using pt
proof (induction n)
  case 0
  then show ?case by simp
next
  case (Suc n)
  have "length (fold body [0..<n] xs) = L"
    using len L by (simp add: length_fold_keep)
  then have "rd (body n (fold body [0..<n] xs)) p = G n (rd (fold body [0..<n] xs) p)"
    by (intro Suc.prems) simp_all
  moreover have "rd (fold body [0..<n] xs) p = fold G [0..<n] (rd xs p)"
    using Suc.prems by (intro Suc.IH) simp_all
  ultimately show ?case by simp
qed

lemma fold_none:
  assumes "\<And>k v. k < n \<Longrightarrow> H k v = v"
  shows "fold H [0..<n] v = v"
  using assms by (induction n) simp_all

lemma fold_single:
  assumes "k0 < n" and "\<And>k v. k < n \<Longrightarrow> k \<noteq> k0 \<Longrightarrow> H k v = v"
  shows "fold H [0..<n] v = H k0 v"
  using assms
proof (induction n)
  case 0
  then show ?case by simp
next
  case (Suc n)
  show ?case
  proof (cases "k0 = n")
    case True
    have "fold H [0..<n] v = v"
      using Suc.prems(2) True by (intro fold_none) simp
    then show ?thesis using True by simp
  next
    case False
    then have "fold H [0..<n] v = H k0 v"
      using Suc.prems by (intro Suc.IH) simp_all
    then show ?thesis using Suc.prems False by simp
  qed
qed

lemma col_acc_length:
  "length (fold (\<lambda>i out. out[f i := F i out]) is xs) = length xs"
  by (induction "is" arbitrary: xs) simp_all

lemma col_acc:
  "rd (fold (\<lambda>i out. out[c + i := F i (rd out (c + i))]) [0..<n] xs) p =
     (if c \<le> p \<and> p < c + n \<and> p < length xs then F (p - c) (rd xs p) else rd xs p)"
proof (induction n arbitrary: p)
  case 0
  then show ?case by auto
next
  case (Suc n)
  let ?ys = "fold (\<lambda>i out. out[c + i := F i (rd out (c + i))]) [0..<n] xs"
  have len: "length ?ys = length xs"
    by (rule col_acc_length)
  have last: "rd ?ys (c + n) = rd xs (c + n)"
    by (simp add: Suc.IH)
  have "rd (fold (\<lambda>i out. out[c + i := F i (rd out (c + i))]) [0..<Suc n] xs) p =
        (if p = c + n \<and> p < length xs then F n (rd xs (c + n)) else rd ?ys p)"
    by (simp add: rd_update len last)
  also have "\<dots> = (if c \<le> p \<and> p < c + Suc n \<and> p < length xs
                    then F (p - c) (rd xs p) else rd xs p)"
    by (auto simp: Suc.IH)
  finally show ?case .
qed

lemma cell_acc:
  "rd (fold (\<lambda>i out. out[q := F i (rd out q)]) [0..<n] xs) p =
     (if p = q \<and> p < length xs then fold F [0..<n] (rd xs p) else rd xs p)"
proof (induction n arbitrary: p)
  case 0
  then show ?case by simp
next
  case (Suc n)
  let ?ys = "fold (\<lambda>i out. out[q := F i (rd out q)]) [0..<n] xs"
  have len: "length ?ys = length xs"
    by (rule col_acc_length)
  show ?case
    by (simp add: rd_update len Suc.IH) 
qed


lemma fold_if_const:
  "fold (\<lambda>j v. if C then F j v else v) js v = (if C then fold F js v else v)"
  by (induction js arbitrary: v) simp_all

lemma cell_unique:
  fixes s :: nat
  assumes "i < s" "i0 < s"
  shows "j * s + i = j0 * s + i0 \<longleftrightarrow> j = j0 \<and> i = i0"
proof
  assume eq: "j * s + i = j0 * s + i0"
  have "(j * s + i) div s = j" "(j0 * s + i0) div s = j0"
    using assms by simp_all
  then have "j = j0" using eq by simp
  then show "j = j0 \<and> i = i0" using eq by simp
qed simp

lemma column_disjoint:
  fixes s :: nat
  assumes "m \<le> s" "r < m" "k \<noteq> k0"
  shows "\<not> (k * s \<le> k0 * s + r \<and> k0 * s + r < k * s + m)"
proof
  assume a: "k * s \<le> k0 * s + r \<and> k0 * s + r < k * s + m"
  then have "k * s + (k0 * s + r - k * s) = k0 * s + r" by simp
  moreover have "k0 * s + r - k * s < s" using a assms by linarith
  moreover have "r < s" using assms by simp
  ultimately have "k = k0"
    using cell_unique [of "k0 * s + r - k * s" s r k k0] by simp
  with assms show False by simp
qed

lemma fold_columns:
  assumes len: "\<And>k xs. length (body k xs) = length xs"
    and pt: "\<And>k xs. k < n \<Longrightarrow> length xs = L \<Longrightarrow>
       rd (body k xs) p =
         (if k * s \<le> p \<and> p < k * s + m \<and> p < L then V k (p - k * s) (rd xs p) else rd xs p)"
    and "m \<le> s" "k0 < n" "r < m" "p = k0 * s + r" "length xs = L" "p < L"
  shows "rd (fold body [0..<n] xs) p = V k0 r (rd xs p)"
proof -
  let ?H = "\<lambda>k v. if k * s \<le> p \<and> p < k * s + m \<and> p < L then V k (p - k * s) v else v"
  have "rd (fold body [0..<n] xs) p = fold ?H [0..<n] (rd xs p)"
    using len pt assms(7) by (rule fold_pointwise)
  also have "\<dots> = ?H k0 (rd xs p)"
  proof (rule fold_single [OF assms(4)])
    fix k v assume "k < n" "k \<noteq> k0"
    then show "?H k v = v"
      using column_disjoint [OF assms(3) assms(5), of k k0] assms(6) by auto
  qed
  also have "\<dots> = V k0 r (rd xs p)"
    using assms by simp
  finally show ?thesis .
qed

lemma fold_cells_hit:
  assumes len: "\<And>j xs. length (body j xs) = length xs"
    and pt: "\<And>j xs. j < n \<Longrightarrow> length xs = L \<Longrightarrow>
       rd (body j xs) p = (if p = f j \<and> p < L then W j else rd xs p)"
    and inj: "\<And>j. j < n \<Longrightarrow> f j = f jh \<Longrightarrow> j = jh"
    and L: "length xs = L" and jh: "jh < n" "p = f jh" "p < L"
  shows "rd (fold body [0..<n] xs) p = W jh"
proof -
  let ?G = "\<lambda>j v. if p = f j \<and> p < L then W j else v"
  have "rd (fold body [0..<n] xs) p = fold ?G [0..<n] (rd xs p)"
    using len pt L by (rule fold_pointwise)
  also have "\<dots> = ?G jh (rd xs p)"
  proof (rule fold_single [OF jh(1)])
    fix k v assume "k < n" "k \<noteq> jh"
    then show "?G k v = v" using inj [of k] jh by auto
  qed
  finally show ?thesis using jh by simp
qed

lemma fold_cells_miss:
  assumes len: "\<And>j xs. length (body j xs) = length xs"
    and pt: "\<And>j xs. j < n \<Longrightarrow> length xs = L \<Longrightarrow>
       rd (body j xs) p = (if p = f j \<and> p < L then W j else rd xs p)"
    and L: "length xs = L" and miss: "\<And>j. j < n \<Longrightarrow> p \<noteq> f j"
  shows "rd (fold body [0..<n] xs) p = rd xs p"
proof -
  let ?G = "\<lambda>j v. if p = f j \<and> p < L then W j else v"
  have "rd (fold body [0..<n] xs) p = fold ?G [0..<n] (rd xs p)"
    using len pt L by (rule fold_pointwise)
  also have "\<dots> = rd xs p"
    using miss by (intro fold_none) auto
  finally show ?thesis .
qed

lemma js_fill_length: "length (js_fill xs v a b) = length xs"
  by (simp add: js_fill_def col_acc_length)

lemma rd_js_fill:
  "rd (js_fill xs v a b) p = (if a \<le> p \<and> p < b \<and> p < length xs then v else rd xs p)"
proof (induction b)
  case 0
  then show ?case by (simp add: js_fill_def)
next
  case (Suc b)
  show ?case
  proof (cases "a \<le> b")
    case True
    then have "js_fill xs v a (Suc b) = (js_fill xs v a b)[b := v]"
      by (simp add: js_fill_def)
    then show ?thesis
      using Suc.IH True by (auto simp: rd_update js_fill_length)
  next
    case False
    then show ?thesis by (auto simp: js_fill_def)
  qed
qed


lemma cell_reset_acc:
  "rd (fold (\<lambda>i out. out[q := F i (rd out q)]) [0..<n] (xs[q := z])) p =
     (if p = q \<and> p < length xs then fold F [0..<n] z else rd xs p)"
  by (simp add: cell_acc rd_update)

lemma fold_cells_row:
  assumes len: "\<And>j xs. length (body j xs) = length xs"
    and pt: "\<And>j xs. j < n \<Longrightarrow> length xs = L \<Longrightarrow>
       rd (body j xs) p = (if p = c + j \<and> p < L then W j else rd xs p)"
    and L: "length xs = L"
  shows "rd (fold body [0..<n] xs) p =
           (if c \<le> p \<and> p < c + n \<and> p < L then W (p - c) else rd xs p)"
proof (cases "c \<le> p \<and> p < c + n \<and> p < L")
  case True
  then have "rd (fold body [0..<n] xs) p = W (p - c)"
    using len pt L by (intro fold_cells_hit [where f = "\<lambda>j. c + j" and L = L and W = W]) auto
  with True show ?thesis by simp
next
  case False
  have "rd (fold body [0..<n] xs) p = rd xs p"
  proof (cases "p < L")
    case True
    with False have "\<And>j. j < n \<Longrightarrow> p \<noteq> c + j" by auto
    then show ?thesis
      using len pt L by (intro fold_cells_miss [where f = "\<lambda>j. c + j" and L = L]) auto
  next
    case False
    have "length (fold body [0..<n] xs) = L"
      using len L by (simp add: length_fold_keep)
    with False L show ?thesis by (simp add: rd_def)
  qed
  with False show ?thesis by auto
qed

lemma multiplylt_length: "length (multiplylt h output inputs) = length output"
  by (simp add: multiplylt_def Let_def for2_fold for1_fold length_fold_keep col_acc_length)

lemma multiplylt_entry:
  assumes "columnsOfInputs h ! 0 \<le> stride h"
    and "k0 < columnsOfInputs h ! 1" and "r < columnsOfInputs h ! 0"
    and "k0 * stride h + r < length output"
  shows "rd (multiplylt h output inputs) (k0 * stride h + r) =
         fold (\<lambda>i v. add_number v (mul_number (rd (inputs ! 0) (r * (strideOfInputs h ! 0) + i))
                                              (rd (inputs ! 1) (k0 * (strideOfInputs h ! 1) + i))))
              [0..<rowsOfInputs h ! 1] (Num 0)"
proof -
  define cA where "cA = columnsOfInputs h ! 0"
  define cB where "cB = columnsOfInputs h ! 1"
  define rB where "rB = rowsOfInputs h ! 1"
  define sA where "sA = strideOfInputs h ! 0"
  define sB where "sB = strideOfInputs h ! 1"
  define s where "s = stride h"
  define a where "a = inputs ! 0"
  define b where "b = inputs ! 1"
  define L where "L = length output"
  define p where "p = k0 * s + r"
  define F where "F = (\<lambda>k j i v. add_number v (mul_number (rd a (j * sA + i)) (rd b (k * sB + i))))"
  define cellbody where "cellbody = (\<lambda>k j (out :: 'a number list).
      fold (\<lambda>i out. out[k * s + j := F k j i (rd out (k * s + j))]) [0..<rB] (out[k * s + j := Num 0]))"
  define body where "body = (\<lambda>k out. fold (cellbody k) [0..<cA] out)"
  have unfold: "multiplylt h output inputs = fold body [0..<cB] output"
    by (simp add: multiplylt_def Let_def for2_fold for1_fold body_def cellbody_def F_def
        cA_def cB_def rB_def sA_def sB_def s_def a_def b_def)
  have clen: "length (cellbody k j xs) = length xs" for k j xs
    by (simp add: cellbody_def col_acc_length)
  have blen: "length (body k xs) = length xs" for k xs
    by (simp add: body_def length_fold_keep clen)
  have cpt: "rd (cellbody k j xs) p = (if p = k * s + j \<and> p < L then fold (F k j) [0..<rB] (Num 0) else rd xs p)"
    if "length xs = L" for k j xs
    using that by (simp add: cellbody_def cell_reset_acc)
  have bpt: "rd (body k xs) p =
      (if k * s \<le> p \<and> p < k * s + cA \<and> p < L
       then (\<lambda>k r v. fold (F k r) [0..<rB] (Num 0)) k (p - k * s) (rd xs p) else rd xs p)"
    if "length xs = L" for k xs
    unfolding body_def
    using clen cpt that by (rule fold_cells_row [where W = "\<lambda>j. fold (F k j) [0..<rB] (Num 0)"])
  have "rd (fold body [0..<cB] output) p = (\<lambda>k r v. fold (F k r) [0..<rB] (Num 0)) k0 r (rd output p)"
    using blen bpt
  proof (rule fold_columns [where m = cA and s = s and L = L])
    show "cA \<le> s" using assms(1) by (simp add: cA_def s_def)
    show "k0 < cB" using assms(2) by (simp add: cB_def)
    show "r < cA" using assms(3) by (simp add: cA_def)
    show "p = k0 * s + r" by (simp add: p_def)
    show "length output = L" by (simp add: L_def)
    show "p < L" using assms(4) by (simp add: p_def L_def s_def)
  qed
  then show ?thesis
    by (simp add: unfold p_def F_def s_def a_def b_def sA_def sB_def rB_def)
qed


lemma clear_matrix_length: "length (clear_matrix h output) = length output"
  by (simp add: clear_matrix_def length_fold_keep js_fill_length)

lemma clear_matrix_entry:
  assumes "rows h \<le> stride h" and "k0 < columns h" and "r < rows h"
    and "k0 * stride h + r < length output" and "k0 * stride h + r < length' h"
  shows "rd (clear_matrix h output) (k0 * stride h + r) = Num 0"
proof (cases "rows h * columns h \<noteq> length' h")
  case True
  have "rd (fold (\<lambda>c out. js_fill out (Num 0) (c * stride h) (c * stride h + rows h))
              [0..<columns h] output) (k0 * stride h + r) =
        (\<lambda>k r v. Num 0) k0 r (rd output (k0 * stride h + r))"
  proof (rule fold_columns [where m = "rows h" and s = "stride h" and L = "length output"])
    fix k xs
    show "length (js_fill xs (Num 0) (k * stride h) (k * stride h + rows h)) = length xs"
      by (rule js_fill_length)
    assume "length xs = length output"
    then show "rd (js_fill xs (Num 0) (k * stride h) (k * stride h + rows h)) (k0 * stride h + r) =
       (if k * stride h \<le> k0 * stride h + r \<and> k0 * stride h + r < k * stride h + rows h \<and>
           k0 * stride h + r < length output
        then Num 0 else rd xs (k0 * stride h + r))"
      by (simp add: rd_js_fill)
  qed (use assms in simp_all)
  with True show ?thesis by (simp add: clear_matrix_def)
next
  case False
  then show ?thesis
    using assms by (simp add: clear_matrix_def rd_js_fill)
qed

lemma multiply_length: "length (multiply h output inputs) = length output"
  by (simp add: multiply_def Let_def for2_fold for1_fold length_fold_keep col_acc_length
      clear_matrix_length)

lemma multiply_entry:
  assumes "rows h \<le> stride h"
    and "k0 < columnsOfInputs h ! 1" and "r < rows h"
    and "k0 * stride h + r < length output"
    and "rd (clear_matrix h output) (k0 * stride h + r) = Num 0"
  shows "rd (multiply h output inputs) (k0 * stride h + r) =
         fold (\<lambda>j v. add_number v (mul_number (rd (inputs ! 0) (j * (strideOfInputs h ! 0) + r))
                                              (rd (inputs ! 1) (k0 * (strideOfInputs h ! 1) + j))))
              [0..<columnsOfInputs h ! 0] (Num 0)"
proof -
  define cA where "cA = columnsOfInputs h ! 0"
  define cB where "cB = columnsOfInputs h ! 1"
  define sA where "sA = strideOfInputs h ! 0"
  define sB where "sB = strideOfInputs h ! 1"
  define s where "s = stride h"
  define m where "m = rows h"
  define a where "a = inputs ! 0"
  define b where "b = inputs ! 1"
  define L where "L = length output"
  define p where "p = k0 * s + r"
  define F where "F = (\<lambda>k i j v. add_number v (mul_number (rd a (j * sA + i)) (rd b (k * sB + j))))"
  define colbody where "colbody = (\<lambda>k j (out :: 'a number list).
      fold (\<lambda>i out. out[k * s + i := F k i j (rd out (k * s + i))]) [0..<m] out)"
  define body where "body = (\<lambda>k out. fold (colbody k) [0..<cA] out)"
  have unfold: "multiply h output inputs = fold body [0..<cB] (clear_matrix h output)"
    by (simp add: multiply_def Let_def for2_fold for1_fold body_def colbody_def F_def
        cA_def cB_def sA_def sB_def s_def a_def b_def m_def)
  have clen: "length (colbody k j xs) = length xs" for k j xs
    by (simp add: colbody_def col_acc_length)
  have blen: "length (body k xs) = length xs" for k xs
    by (simp add: body_def length_fold_keep clen)
  have cpt: "rd (colbody k j xs) p =
      (\<lambda>j v. if k * s \<le> p \<and> p < k * s + m \<and> p < L then F k (p - k * s) j v else v) j (rd xs p)"
    if "length xs = L" for k j xs
    using that by (simp add: colbody_def col_acc [where F = "\<lambda>i. F k i j" and c = "k * s"])
  have bpt: "rd (body k xs) p =
      (if k * s \<le> p \<and> p < k * s + m \<and> p < L
       then (\<lambda>k r v. fold (F k r) [0..<cA] v) k (p - k * s) (rd xs p) else rd xs p)"
    if "length xs = L" for k xs
  proof -
    have "rd (body k xs) p =
       fold (\<lambda>j v. if k * s \<le> p \<and> p < k * s + m \<and> p < L then F k (p - k * s) j v else v)
         [0..<cA] (rd xs p)"
      unfolding body_def using clen cpt that by (rule fold_pointwise)
    then show ?thesis by (simp add: fold_if_const)
  qed
  have "rd (fold body [0..<cB] (clear_matrix h output)) p =
        (\<lambda>k r v. fold (F k r) [0..<cA] v) k0 r (rd (clear_matrix h output) p)"
    using blen bpt
  proof (rule fold_columns [where m = m and s = s and L = L])
    show "m \<le> s" using assms(1) by (simp add: m_def s_def)
    show "k0 < cB" using assms(2) by (simp add: cB_def)
    show "r < m" using assms(3) by (simp add: m_def)
    show "p = k0 * s + r" by (simp add: p_def)
    show "length (clear_matrix h output) = L" by (simp add: L_def clear_matrix_length)
    show "p < L" using assms(4) by (simp add: p_def L_def s_def)
  qed
  then show ?thesis
    using assms(5) by (simp add: unfold p_def F_def s_def a_def b_def sA_def sB_def cA_def)
qed

lemma transpose_length: "length (transpose_matrix h output inputs) = length output"
  by (simp add: transpose_matrix_def Let_def for1_fold length_fold_keep)

lemma transpose_entry:
  assumes "rows h \<le> stride h" and "j0 < columns h" and "i0 < rows h"
    and "j0 * stride h + i0 < length output"
  shows "rd (transpose_matrix h output inputs) (j0 * stride h + i0) =
         rd (inputs ! 0) (i0 * (strideOfInputs h ! 0) + j0)"
proof -
  define s where "s = stride h"
  define sI where "sI = strideOfInputs h ! 0"
  define input where "input = inputs ! 0"
  define L where "L = length output"
  define p where "p = j0 * s + i0"
  define rowbody where "rowbody = (\<lambda>i (out :: 'a number list).
      fold (\<lambda>j out. out[j * s + i := rd input (i * sI + j)]) [0..<columns h] out)"
  have unfold: "transpose_matrix h output inputs = fold rowbody [0..<rows h] output"
    by (simp add: transpose_matrix_def Let_def for1_fold rowbody_def s_def sI_def input_def)
  have i0s: "i0 < s" using assms(1,3) by (simp add: s_def)
  have pL: "p < L" using assms(4) by (simp add: p_def L_def s_def)
  have rlen: "length (rowbody i xs) = length xs" for i xs
    by (simp add: rowbody_def length_fold_keep)
  have rpt: "rd (rowbody i xs) p =
      (if p = j0 * s + i \<and> p < L then rd input (i * sI + j0) else rd xs p)"
    if "i < rows h" "length xs = L" for i xs
  proof (cases "i = i0")
    case True
    have "rd (rowbody i xs) p = (\<lambda>j. rd input (i * sI + j)) j0"
      unfolding rowbody_def
    proof (rule fold_cells_hit [where f = "\<lambda>j. j * s + i" and L = L
          and W = "\<lambda>j. rd input (i * sI + j)" and jh = j0])
      show "\<And>j. j < columns h \<Longrightarrow> j * s + i = j0 * s + i \<Longrightarrow> j = j0"
        using cell_unique [of i s i _ j0] i0s True by simp
    qed (use that True pL assms in \<open>simp_all add: rd_update p_def\<close>)
    with True pL show ?thesis by (simp add: p_def)
  next
    case False
    have ilt: "i < s" using that(1) assms(1) by (simp add: s_def)
    have "rd (rowbody i xs) p = rd xs p"
      unfolding rowbody_def
    proof (rule fold_cells_miss [where f = "\<lambda>j. j * s + i" and L = L
          and W = "\<lambda>j. rd input (i * sI + j)"])
      show "\<And>j. j < columns h \<Longrightarrow> p \<noteq> j * s + i"
        using cell_unique [of i0 s i j0] i0s ilt False by (auto simp: p_def)
    qed (use that in \<open>simp_all add: rd_update\<close>)
    with False show ?thesis by (simp add: p_def)
  qed
  have "rd (fold rowbody [0..<rows h] output) p = (\<lambda>i. rd input (i * sI + j0)) i0"
    using rlen rpt
  proof (rule fold_cells_hit [where f = "\<lambda>i. j0 * s + i" and L = L
        and W = "\<lambda>i. rd input (i * sI + j0)" and jh = i0])
    show "length output = L" by (simp add: L_def)
  qed (use assms pL in \<open>simp_all add: p_def\<close>)
  then show ?thesis
    by (simp add: unfold p_def s_def sI_def input_def)
qed


lemma holds_matrix_entry:
  assumes "holds_matrix len rws cls strd" and "r < rws" and "k < cls"
  shows "k * strd + r < len"
proof -
  have "k * strd \<le> (cls - 1) * strd"
    using assms(3) by (intro mult_le_mono1) simp
  moreover have "(cls - 1) * strd + rws \<le> len"
    using assms by (auto simp: holds_matrix_def)
  ultimately show ?thesis
    using assms(2) by linarith
qed

text \<open>
  C7. \<open>A\<close> has \<open>n\<close> rows and \<open>m\<close> columns, \<open>B\<close> has \<open>n\<close> rows and \<open>c\<close>
  columns. MULTIPLYLT of \<open>A\<close> and \<open>B\<close> into \<open>out1\<close>, and MULTIPLY of the TRANSPOSE of
  \<open>A\<close> (computed into \<open>tbuf\<close>) and \<open>B\<close> into \<open>out2\<close>, agree on every entry of the
  \<open>m\<close> by \<open>c\<close> result, whatever the strides of the five matrices, as long as the storage
  of the transpose and of the two outputs holds them. The numbers are added and multiplied
  in the same order in both computations, so no law of arithmetic is used.
\<close>

theorem multiplylt_is_multiply_of_transpose:
  fixes a b tbuf out1 out2 :: "'a::ring TypedArray"
  assumes hL: "rows hL = m" "columns hL = c" "stride hL = s1"
      "rowsOfInputs hL = [n, n]" "columnsOfInputs hL = [m, c]" "strideOfInputs hL = [sA, sB]"
    and hT: "rows hT = m" "columns hT = n" "stride hT = sT" "strideOfInputs hT = [sA]"
    and hM: "rows hM = m" "columns hM = c" "stride hM = s2" "length' hM = length out2"
      "columnsOfInputs hM = [n, c]" "strideOfInputs hM = [sT, sB]"
    and store: "holds_matrix (length out1) m c s1" "holds_matrix (length tbuf) m n sT"
      "holds_matrix (length out2) m c s2"
  shows "\<forall>r<m. \<forall>k<c.
           rd (multiplylt hL out1 [a, b]) (k * s1 + r) =
           rd (multiply hM out2 [transpose_matrix hT tbuf [a], b]) (k * s2 + r)"
proof (intro allI impI)
  fix r k assume r: "r < m" and k: "k < c"
  let ?t = "transpose_matrix hT tbuf [a]"
  have p1: "k * s1 + r < length out1" and p2: "k * s2 + r < length out2"
    using store r k by (auto intro: holds_matrix_entry)
  have strides: "m \<le> s1" "m \<le> sT" "m \<le> s2"
    using store by (simp_all add: holds_matrix_def)
  have left: "rd (multiplylt hL out1 [a, b]) (k * s1 + r) =
      fold (\<lambda>i v. add_number v (mul_number (rd a (r * sA + i)) (rd b (k * sB + i)))) [0..<n] (Num 0)"
    using multiplylt_entry [of hL k r out1 "[a, b]"] hL strides r k p1 by simp
  have cleared: "rd (clear_matrix hM out2) (k * s2 + r) = Num 0"
    using clear_matrix_entry [of hM k r out2] hM strides r k p2 by simp
  have right: "rd (multiply hM out2 [?t, b]) (k * s2 + r) =
      fold (\<lambda>j v. add_number v (mul_number (rd ?t (j * sT + r)) (rd b (k * sB + j)))) [0..<n] (Num 0)"
    using multiply_entry [of hM k r out2 "[?t, b]"] hM strides r k p2 cleared by simp
  have t: "rd ?t (j * sT + r) = rd a (r * sA + j)" if "j < n" for j
  proof -
    have "j * sT + r < length tbuf"
      using store(2) r that by (rule holds_matrix_entry)
    then show ?thesis
      using transpose_entry [of hT j r tbuf "[a]"] hT strides r that by simp
  qed
  have "fold (\<lambda>j v. add_number v (mul_number (rd ?t (j * sT + r)) (rd b (k * sB + j)))) [0..<n] (Num 0) =
        fold (\<lambda>i v. add_number v (mul_number (rd a (r * sA + i)) (rd b (k * sB + i)))) [0..<n] (Num 0)"
    by (rule fold_cong) (simp_all add: t)
  with left right show "rd (multiplylt hL out1 [a, b]) (k * s1 + r) =
           rd (multiply hM out2 [?t, b]) (k * s2 + r)"
    by simp
qed


theorem multiplylt_is_multiply_of_transpose_witness:
  "rd (multiplylt hdr_lt (replicate 8 NaN) [mat_a, mat_b]) (1 * 4 + 1) =
   rd (multiply hdr_mul (replicate 6 NaN) [transpose_matrix hdr_t (replicate 6 NaN) [mat_a], mat_b]) (1 * 3 + 1) \<and>
   multiplylt hdr_lt (replicate 8 NaN) [mat_a, mat_b] = [Num 7, Num 16, NaN, NaN, Num 11, Num 23, NaN, NaN] \<and>
   multiply hdr_mul (replicate 6 NaN) [transpose_matrix hdr_t (replicate 6 NaN) [mat_a], mat_b] =
     [Num 7, Num 16, NaN, Num 11, Num 23, NaN]"
proof -
  have A: "rows hdr_lt = 2" "columns hdr_lt = 2" "stride hdr_lt = 4"
      "rowsOfInputs hdr_lt = [3, 3]" "columnsOfInputs hdr_lt = [2, 2]" "strideOfInputs hdr_lt = [3, 5]"
    by (simp_all add: hdr_lt_def)
  have B: "rows hdr_t = 2" "columns hdr_t = 3" "stride hdr_t = 2" "strideOfInputs hdr_t = [3]"
    by (simp_all add: hdr_t_def)
  have C: "rows hdr_mul = 2" "columns hdr_mul = 2" "stride hdr_mul = 3" "length' hdr_mul = length (replicate 6 (NaN :: int number))"
      "columnsOfInputs hdr_mul = [3, 2]" "strideOfInputs hdr_mul = [2, 5]"
    by (simp_all add: hdr_mul_def)
  have D: "holds_matrix (length (replicate 8 (NaN :: int number))) 2 2 4" "holds_matrix (length (replicate 6 (NaN :: int number))) 2 3 2"
      "holds_matrix (length (replicate 6 (NaN :: int number))) 2 2 3"
    by (simp_all add: holds_matrix_def)
  note T = multiplylt_is_multiply_of_transpose [OF A B C D, of mat_a mat_b, rule_format, of 1 1]
  have "multiplylt hdr_lt (replicate 8 NaN) [mat_a, mat_b] = [Num 7, Num 16, NaN, NaN, Num 11, Num 23, NaN, NaN]"
    by code_simp
  moreover have "multiply hdr_mul (replicate 6 NaN) [transpose_matrix hdr_t (replicate 6 NaN) [mat_a], mat_b] =
     [Num 7, Num 16, NaN, Num 11, Num 23, NaN]"
    by code_simp
  ultimately show ?thesis using T by simp
qed

subsection \<open>What the routines leave alone\<close>

lemma rd_fold_keep:
  assumes "\<And>j xs. length (body j xs) = length xs"
    and "\<And>j xs. j \<in> set js \<Longrightarrow> rd (body j xs) p = rd xs p"
  shows "rd (fold body js xs) p = rd xs p"
  using assms(2) by (induction js arbitrary: xs) simp_all

lemma rd_fold_update_keep:
  assumes "\<And>i. i \<in> set js \<Longrightarrow> f i \<noteq> p"
  shows "rd (fold (\<lambda>i out. out[f i := F i out]) js xs) p = rd xs p"
  using assms by (induction js arbitrary: xs) (auto simp: rd_update)

lemma not_padding:
  fixes s :: nat
  assumes "i < rws" "rws \<le> r0" "r0 < s"
  shows "k * s + i \<noteq> j0 * s + r0"
  using cell_unique [of i s r0 k j0] assms by simp

lemma padding_beyond_packed:
  assumes "rws * cls = len" and "holds_matrix len rws cls s"
    and "j0 < cls" and "rws \<le> r0" and "r0 < s"
  shows "len \<le> j0 * s + r0"
proof (cases "rws = 0")
  case True
  with assms(1) show ?thesis by simp
next
  case False
  then have fit: "(cls - 1) * s + rws \<le> len"
    using assms(2,3) by (auto simp: holds_matrix_def)
  have "cls = 1"
  proof (rule ccontr)
    assume "cls \<noteq> 1"
    then have c: "0 < cls - 1" using assms(3) by simp
    have "rws * cls = (cls - 1) * rws + rws"
      using assms(3) by (metis Suc_diff_1 less_nat_zero_code mult.commute mult_Suc neq0_conv add.commute)
    then have "(cls - 1) * s \<le> (cls - 1) * rws"
      using fit assms(1) by simp
    then have "s \<le> rws" using c by simp
    with assms(4,5) show False by simp
  qed
  with assms show ?thesis by simp
qed

lemma column_fill_keep:
  assumes "rws \<le> r0" "r0 < s"
  shows "rd (js_fill xs v (k * s) (k * s + rws)) (j0 * s + r0) = rd xs (j0 * s + r0)"
proof -
  have "\<not> (k * s \<le> j0 * s + r0 \<and> j0 * s + r0 < k * s + rws)"
  proof
    assume a: "k * s \<le> j0 * s + r0 \<and> j0 * s + r0 < k * s + rws"
    then have "k * s + (j0 * s + r0 - k * s) = j0 * s + r0" by simp
    moreover have "j0 * s + r0 - k * s < rws" using a by linarith
    ultimately show False
      using not_padding [OF _ assms, of "j0 * s + r0 - k * s" k j0] by simp
  qed
  then show ?thesis by (auto simp: rd_js_fill)
qed

lemma column_loop_keep:
  assumes "rws \<le> r0" "r0 < s"
  shows "rd (fold (\<lambda>i out. out[k * s + i := F i out]) [0..<rws] xs) (j0 * s + r0) =
         rd xs (j0 * s + r0)"
  using not_padding [OF _ assms] by (intro rd_fold_update_keep) simp

lemma fill_length: "length (fill h output inputs) = length output"
  by (simp add: fill_def js_fill_length length_fold_keep)

lemma fill_keep:
  assumes "holds_matrix (length' h) (rows h) (columns h) (stride h)"
    and "j0 < columns h" and "rows h \<le> r0" and "r0 < stride h"
  shows "rd (fill h output inputs) (j0 * stride h + r0) = rd output (j0 * stride h + r0)"
proof (cases "rows h * columns h = length' h")
  case True
  then have "length' h \<le> j0 * stride h + r0"
    using assms by (rule padding_beyond_packed)
  with True show ?thesis by (simp add: fill_def rd_js_fill)
next
  case False
  then show ?thesis
    using assms(3,4)
    by (simp add: fill_def rd_fold_keep js_fill_length column_fill_keep)
qed

lemma clear_matrix_keep:
  assumes "holds_matrix (length' h) (rows h) (columns h) (stride h)"
    and "j0 < columns h" and "rows h \<le> r0" and "r0 < stride h"
  shows "rd (clear_matrix h output) (j0 * stride h + r0) = rd output (j0 * stride h + r0)"
proof (cases "rows h * columns h = length' h")
  case True
  then have "length' h \<le> j0 * stride h + r0"
    using assms by (rule padding_beyond_packed)
  with True show ?thesis by (simp add: clear_matrix_def rd_js_fill)
next
  case False
  then show ?thesis
    using assms(3,4)
    by (simp add: clear_matrix_def rd_fold_keep js_fill_length column_fill_keep)
qed

lemma copy_keep:
  assumes "copy h output inputs = Inr output'"
    and "holds_matrix (length' h) (rows h) (columns h) (stride h)"
    and "length (inputs ! 0) = lengthOfInputs h ! 0"
    and "j0 < columns h" and "rows h \<le> r0" and "r0 < stride h"
  shows "length output' = length output \<and>
         rd output' (j0 * stride h + r0) = rd output (j0 * stride h + r0)"
proof (cases "length' h = lengthOfInputs h ! 0 \<and> rows h * columns h = length' h")
  case True
  then have beyond: "length' h \<le> j0 * stride h + r0"
    using assms(2,4,5,6) by (intro padding_beyond_packed) simp_all
  have set: "js_set output (inputs ! 0) = Inr output'"
    using assms(1) True by (simp add: copy_def Let_def)
  then have out': "output' = inputs ! 0 @ drop (length (inputs ! 0)) output"
    and le: "length (inputs ! 0) \<le> length output"
    by (auto simp: js_set_def split: if_splits)
  have "length (inputs ! 0) \<le> j0 * stride h + r0"
    using beyond True assms(3) by simp
  then show ?thesis
    using le by (simp add: out' rd_def nth_append)
next
  case False
  then have "copy h output inputs = Inr (for2 (columns h) (stride h) (strideOfInputs h ! 0)
               (\<lambda>j oj ij out. fold (\<lambda>i out. out[oj + i := rd (inputs ! 0) (ij + i)]) [0..<rows h] out)
               output)"
    unfolding copy_def Let_def by (rule if_not_P)
  then have "output' = for2 (columns h) (stride h) (strideOfInputs h ! 0)
               (\<lambda>j oj ij out. fold (\<lambda>i out. out[oj + i := rd (inputs ! 0) (ij + i)]) [0..<rows h] out)
               output"
    using assms(1) by simp
  then show ?thesis
    using assms(5,6)
    by (simp add: for2_fold length_fold_keep rd_fold_keep column_loop_keep)
qed


lemma cell_loop_keep:
  fixes s :: nat
  assumes "i < rws" "rws \<le> r0" "r0 < s"
  shows "rd (fold (\<lambda>j out. out[k * s + i := F j out]) js xs) (j0 * s + r0) = rd xs (j0 * s + r0)"
  using not_padding [OF assms] by (intro rd_fold_update_keep) simp

lemma row_loop_keep:
  fixes s :: nat
  assumes "i < rws" "rws \<le> r0" "r0 < s"
  shows "rd (fold (\<lambda>j out. out[j * s + i := F j out]) js xs) (j0 * s + r0) = rd xs (j0 * s + r0)"
  using not_padding [OF assms] by (intro rd_fold_update_keep) simp

lemma transpose_keep:
  assumes "rows h \<le> r0" and "r0 < stride h"
  shows "rd (transpose_matrix h output inputs) (j0 * stride h + r0) = rd output (j0 * stride h + r0)"
  unfolding transpose_matrix_def Let_def for1_fold
proof (rule rd_fold_keep)
  fix i and xs :: "'a number list"
  show "length (fold (\<lambda>j out. out[j * stride h + i := rd (inputs ! 0) (i * strideOfInputs h ! 0 + j)])
                  [0..<columns h] xs) = length xs"
    by (simp add: length_fold_keep)
  assume "i \<in> set [0..<rows h]"
  then have "i < rows h" by simp
  then show "rd (fold (\<lambda>j out. out[j * stride h + i := rd (inputs ! 0) (i * strideOfInputs h ! 0 + j)])
                  [0..<columns h] xs) (j0 * stride h + r0) = rd xs (j0 * stride h + r0)"
    using assms by (rule row_loop_keep)
qed

lemma add_length: "length (add h output inputs) = length output"
  by (simp add: add_def Let_def length_fold_keep col_acc_length)

lemma add_keep:
  assumes "rows h \<le> r0" and "r0 < stride h"
  shows "rd (add h output inputs) (j0 * stride h + r0) = rd output (j0 * stride h + r0)"
  using assms
  by (simp add: add_def Let_def rd_fold_keep length_fold_keep col_acc_length column_loop_keep)

lemma subtract_length: "length (subtract h output inputs) = length output"
  by (simp add: subtract_def Let_def length_fold_keep col_acc_length)

lemma subtract_keep:
  assumes "rows h \<le> r0" and "r0 < stride h"
  shows "rd (subtract h output inputs) (j0 * stride h + r0) = rd output (j0 * stride h + r0)"
  using assms
  by (simp add: subtract_def Let_def rd_fold_keep length_fold_keep col_acc_length column_loop_keep)

lemma compmult_length: "length (compmult h output inputs) = length output"
  by (simp add: compmult_def Let_def length_fold_keep col_acc_length)

lemma compmult_keep:
  assumes "rows h \<le> r0" and "r0 < stride h"
  shows "rd (compmult h output inputs) (j0 * stride h + r0) = rd output (j0 * stride h + r0)"
  using assms
  by (simp add: compmult_def Let_def rd_fold_keep length_fold_keep col_acc_length column_loop_keep)

lemma scale_length: "length (scale h output inputs) = length output"
  by (simp add: scale_def Let_def length_fold_keep col_acc_length)

lemma scale_keep:
  assumes "rows h \<le> r0" and "r0 < stride h"
  shows "rd (scale h output inputs) (j0 * stride h + r0) = rd output (j0 * stride h + r0)"
  using assms
  by (simp add: scale_def Let_def rd_fold_keep length_fold_keep col_acc_length column_loop_keep)

lemma multiply_keep:
  assumes "holds_matrix (length' h) (rows h) (columns h) (stride h)"
    and "j0 < columns h" and "rows h \<le> r0" and "r0 < stride h"
  shows "rd (multiply h output inputs) (j0 * stride h + r0) = rd output (j0 * stride h + r0)"
  using assms(3,4) clear_matrix_keep [OF assms]
  by (simp add: multiply_def Let_def for2_fold for1_fold rd_fold_keep length_fold_keep
      col_acc_length column_loop_keep)

lemma multiplyrt_length: "length (multiplyrt h output inputs) = length output"
  by (simp add: multiplyrt_def Let_def for2_fold for1_fold length_fold_keep col_acc_length
      clear_matrix_length)

lemma multiplyrt_keep:
  assumes "holds_matrix (length' h) (rows h) (columns h) (stride h)"
    and "j0 < columns h" and "rows h \<le> r0" and "r0 < stride h"
  shows "rd (multiplyrt h output inputs) (j0 * stride h + r0) = rd output (j0 * stride h + r0)"
  using assms(3,4) clear_matrix_keep [OF assms]
  by (simp add: multiplyrt_def Let_def for2_fold for1_fold rd_fold_keep length_fold_keep
      col_acc_length column_loop_keep)

lemma multiplylt_keep:
  assumes "columnsOfInputs h ! 0 \<le> rows h" and "rows h \<le> r0" and "r0 < stride h"
  shows "rd (multiplylt h output inputs) (j0 * stride h + r0) = rd output (j0 * stride h + r0)"
proof -
  have cell: "rd (fold (\<lambda>i out. out[k * stride h + j := F i out]) js (xs[k * stride h + j := z]))
                (j0 * stride h + r0) = rd xs (j0 * stride h + r0)"
    if "j < columnsOfInputs h ! 0" for k j F js z and xs :: "'a number list"
  proof -
    have "j < rows h" using that assms(1) by simp
    then have ne: "k * stride h + j \<noteq> j0 * stride h + r0"
      using assms(2,3) by (rule not_padding)
    then show ?thesis
      by (simp add: rd_fold_update_keep rd_update)
  qed
  have row: "rd (fold (\<lambda>j out. fold (\<lambda>i out. out[k * stride h + j := F j i out]) js
                                  (out[k * stride h + j := z]))
                  [0..<columnsOfInputs h ! 0] xs) (j0 * stride h + r0) = rd xs (j0 * stride h + r0)"
    for k F js z and xs :: "'a number list"
  proof (rule rd_fold_keep)
    fix j and ys :: "'a number list"
    show "length (fold (\<lambda>i out. out[k * stride h + j := F j i out]) js (ys[k * stride h + j := z])) =
          length ys"
      by (simp add: col_acc_length)
    assume "j \<in> set [0..<columnsOfInputs h ! 0]"
    then have "j < columnsOfInputs h ! 0" by simp
    then show "rd (fold (\<lambda>i out. out[k * stride h + j := F j i out]) js (ys[k * stride h + j := z]))
                 (j0 * stride h + r0) = rd ys (j0 * stride h + r0)"
      by (rule cell)
  qed
  show ?thesis
    unfolding multiplylt_def Let_def for2_fold for1_fold
    by (rule rd_fold_keep) (simp_all add: length_fold_keep col_acc_length row)
qed

text \<open>
  C8. Whatever the operation, the entries of the output storage below the rows of a
  column (index \<open>j * stride + r\<close> with \<open>j < columns\<close> and \<open>rows \<le> r < stride\<close>) keep
  their values, and the storage keeps its length. The header is that of a matrix its
  \<open>length\<close> holds; for COPY the header gives the length of the input; for MULTIPLYLT
  the left input has as many columns as the output has rows.
\<close>

theorem padding_never_written:
  assumes "Opcode2fun opc h output inputs = Inr output'"
    and "holds_matrix (length' h) (rows h) (columns h) (stride h)"
    and "opc = COPY \<longrightarrow> length (inputs ! 0) = lengthOfInputs h ! 0"
    and "opc = MULTIPLYLT \<longrightarrow> columnsOfInputs h ! 0 = rows h"
    and "j < columns h" and "rows h \<le> r" and "r < stride h"
  shows "length output' = length output \<and>
         rd output' (j * stride h + r) = rd output (j * stride h + r)"
proof (cases opc)
  case NOP
  with assms(1) show ?thesis by (auto simp: nop_def)
next
  case FILL
  with assms(1) have "output' = fill h output inputs" by auto
  then show ?thesis
    using fill_keep [OF assms(2,5,6,7)] by (simp add: fill_length)
next
  case COPY
  with assms(1,3) show ?thesis
    using copy_keep [OF _ assms(2) _ assms(5,6,7)] by simp
next
  case TRANSPOSE
  with assms(1) have "output' = transpose_matrix h output inputs" by auto
  then show ?thesis
    using transpose_keep [OF assms(6,7)] by (simp add: transpose_length)
next
  case ADD
  with assms(1) have "output' = add h output inputs" by auto
  then show ?thesis
    using add_keep [OF assms(6,7)] by (simp add: add_length)
next
  case SUBTRACT
  with assms(1) have "output' = subtract h output inputs" by auto
  then show ?thesis
    using subtract_keep [OF assms(6,7)] by (simp add: subtract_length)
next
  case MULTIPLY
  with assms(1) have "output' = multiply h output inputs" by auto
  then show ?thesis
    using multiply_keep [OF assms(2,5,6,7)] by (simp add: multiply_length)
next
  case SCALE
  with assms(1) have "output' = scale h output inputs" by auto
  then show ?thesis
    using scale_keep [OF assms(6,7)] by (simp add: scale_length)
next
  case COMPMULT
  with assms(1) have "output' = compmult h output inputs" by auto
  then show ?thesis
    using compmult_keep [OF assms(6,7)] by (simp add: compmult_length)
next
  case MULTIPLYLT
  with assms(1) have "output' = multiplylt h output inputs" by auto
  moreover have "columnsOfInputs h ! 0 \<le> rows h"
    using assms(4) MULTIPLYLT by simp
  ultimately show ?thesis
    using multiplylt_keep [OF _ assms(6,7)] by (simp add: multiplylt_length)
next
  case MULTIPLYRT
  with assms(1) have "output' = multiplyrt h output inputs" by auto
  then show ?thesis
    using multiplyrt_keep [OF assms(2,5,6,7)] by (simp add: multiplyrt_length)
qed

text \<open>
  Scenario S5: the product of two 2 x 2 matrices stored with stride 4; rows 2 and 3 of
  both columns of the output keep their values.
\<close>

theorem padding_never_written_witness:
  "Opcode2fun MULTIPLY hdr_s5 s5_out [s5_a, s5_b] =
     Inr (map Num [19, 43, 77, 78, 22, 50, 79, 80]) \<and>
   length (map Num [19, 43, 77, 78, 22, 50, 79, 80 :: int]) = length s5_out \<and>
   rd (map Num [19, 43, 77, 78, 22, 50, 79, 80]) (1 * 4 + 2) = rd s5_out (1 * 4 + 2)"
proof -
  have e: "Opcode2fun MULTIPLY hdr_s5 s5_out [s5_a, s5_b] = Inr (map Num [19, 43, 77, 78, 22, 50, 79, 80])"
    by code_simp
  have m: "holds_matrix (length' hdr_s5) (rows hdr_s5) (columns hdr_s5) (stride hdr_s5)"
    by (simp add: holds_matrix_def hdr_s5_def)
  have c: "MULTIPLY = COPY \<longrightarrow> length ([s5_a, s5_b] ! 0) = lengthOfInputs hdr_s5 ! 0"
    and l: "MULTIPLY = MULTIPLYLT \<longrightarrow> columnsOfInputs hdr_s5 ! 0 = rows hdr_s5"
    by simp_all
  have j: "1 < columns hdr_s5" and r: "rows hdr_s5 \<le> 2" "2 < stride hdr_s5"
    by (simp_all add: hdr_s5_def)
  show ?thesis
    using padding_never_written [OF e m c l j r] e by (simp add: hdr_s5_def)
qed

subsection \<open>SCALE and the stride of its input\<close>

text \<open>
  The entries that SCALE writes: the scalar times the entry of the input at the same
  index, that is, at the offset that the stride of the output gives.
\<close>

lemma scale_entry:
  assumes "rows h \<le> stride h" and "k0 < columns h" and "r < rows h"
    and "k0 * stride h + r < length output"
  shows "rd (scale h output inputs) (k0 * stride h + r) =
         mul_number (rd (inputs ! 0) (k0 * stride h + r)) (custom_scalar h)"
proof -
  define body where "body = (\<lambda>j (out :: 'a number list).
      fold (\<lambda>i out. out[j * stride h + i :=
                (\<lambda>i u. mul_number (rd (inputs ! 0) (j * stride h + i)) (custom_scalar h)) i
                  (rd out (j * stride h + i))]) [0..<rows h] out)"
  have unfold: "scale h output inputs = fold body [0..<columns h] output"
    by (simp add: scale_def Let_def body_def)
  have "rd (fold body [0..<columns h] output) (k0 * stride h + r) =
        (\<lambda>k r v. mul_number (rd (inputs ! 0) (k * stride h + r)) (custom_scalar h)) k0 r
          (rd output (k0 * stride h + r))"
  proof (rule fold_columns [where m = "rows h" and s = "stride h" and L = "length output"
        and V = "\<lambda>k r v. mul_number (rd (inputs ! 0) (k * stride h + r)) (custom_scalar h)"])
    fix k and xs :: "'a number list"
    show "length (body k xs) = length xs"
      by (simp add: body_def col_acc_length)
    assume "length xs = length output"
    then show "rd (body k xs) (k0 * stride h + r) =
       (if k * stride h \<le> k0 * stride h + r \<and> k0 * stride h + r < k * stride h + rows h \<and>
           k0 * stride h + r < length output
        then mul_number (rd (inputs ! 0) (k * stride h + (k0 * stride h + r - k * stride h)))
               (custom_scalar h)
        else rd xs (k0 * stride h + r))"
      unfolding body_def
      by (simp add: col_acc [where c = "k * stride h"
            and F = "\<lambda>i u. mul_number (rd (inputs ! 0) (k * stride h + i)) (custom_scalar h)"])
  qed (use assms in simp_all)
  then show ?thesis by (simp add: unfold)
qed

text \<open>
  C4. A 1 x 2 input stored with stride 2 (entries 1 and 2, the value 9 in the padding
  between them) is scaled by 10 into an output with stride 1. The routine reads the input
  with the stride of the output: the second entry of the result is 10 times the padding
  value, not 10 times the entry (0, 1) of the input, which lies at index \<open>1 * 2 + 0\<close>.
\<close>

theorem scale_reads_input_with_output_stride:
  "scale hdr_s4 [Num 0, Num 0] [[Num 1, Num 9, Num 2]] = [Num 10, Num 90] \<and>
   rd [Num 1, Num 9, Num (2 :: int)] (1 * 2 + 0) = Num 2 \<and>
   rd (scale hdr_s4 [Num 0, Num 0] [[Num 1, Num 9, Num 2]]) (1 * stride hdr_s4 + 0) \<noteq>
     mul_number (rd [Num 1, Num 9, Num 2] (1 * (strideOfInputs hdr_s4 ! 0) + 0)) (custom_scalar hdr_s4)"
  by code_simp


end
